theory Spec2Isabelle
  imports Complex_Main "HOL-Library.Word" "HOL-Library.Finite_Map"
begin

unbundle bit_operations_syntax

section \<open>The dynamic memory pool of gozlib (dyn\_mem\_pool.h)\<close>

text \<open>
  The development embeds \<^verbatim>\<open>src/zwrapper/dyn_mem_pool.h\<close>: the size-class arithmetic on
  \<^verbatim>\<open>uint32_t\<close>, the single-size pool with its free list, the multipool and the global
  multipool. Executions are sequential (one thread); the atomic loads and stores are plain
  reads and writes of the store, and the weak compare-and-exchange may still fail
  spuriously.
\<close>

subsection \<open>Size classes\<close>

type_synonym u32 = "32 word"

text \<open>\<^verbatim>\<open>static const int DynPoolMinMultiPoolMemNodeSizeBits = 9;\<close>\<close>

definition DynPoolMinMultiPoolMemNodeSizeBits :: nat where
  "DynPoolMinMultiPoolMemNodeSizeBits = 9"

text \<open>\<^verbatim>\<open>enum { MULTIPOOL_ENTRY_COUNT = 14 };\<close>\<close>

definition MULTIPOOL_ENTRY_COUNT :: nat where
  "MULTIPOOL_ENTRY_COUNT = 14"

text \<open>
  \<^verbatim>\<open>__builtin_clz\<close> on a 32-bit \<^verbatim>\<open>unsigned int\<close>: the number of zero bits above the
  most significant one bit. \<open>clz_from n w\<close> scans bits \<open>n - 1\<close> down to \<open>0\<close>. The C builtin
  is undefined at \<open>0\<close>; its only caller tests for \<open>0\<close> first.
\<close>

primrec clz_from :: "nat \<Rightarrow> u32 \<Rightarrow> nat" where
  "clz_from 0 w = 0"
| "clz_from (Suc n) w = (if bit w n then 0 else Suc (clz_from n w))"

definition builtin_clz :: "u32 \<Rightarrow> nat" where
  "builtin_clz w = clz_from 32 w"

text \<open>\<^verbatim>\<open>static const uint32_t int32bitcount = sizeof(uint32_t) * CHAR_BIT;\<close>\<close>

definition int32bitcount :: u32 where
  "int32bitcount = 32"

text \<open>
  \<^verbatim>\<open>
  uint32_t find_multipool_index_for_size(uint32_t size) {
      uint32_t size_value = (size - 1) >>DynPoolMinMultiPoolMemNodeSizeBits;
      if( __builtin_expect(size_value == 0, 0)) {
          return 0;
      }
      return (int32bitcount - (uint32_t)__builtin_clz(size_value));
  }
  \<close>
  The subtraction is on \<^verbatim>\<open>uint32_t\<close> and wraps at \<open>size = 0\<close>.
\<close>

definition find_multipool_index_for_size :: "u32 \<Rightarrow> u32" where
  "find_multipool_index_for_size sz =
     (let size_value = drop_bit DynPoolMinMultiPoolMemNodeSizeBits (sz - 1)
      in if size_value = 0 then 0
         else int32bitcount - of_nat (builtin_clz size_value))"

subsection \<open>Build configuration and failures\<close>

text \<open>
  Two preprocessor symbols change what the header does: \<^verbatim>\<open>NDEBUG\<close> removes every
  \<^verbatim>\<open>assert\<close>, and \<^verbatim>\<open>TRACK_POOL_USAGE\<close> enables the usage counters.
\<close>

record config =
  NDEBUG :: bool
  TRACK_POOL_USAGE :: bool

text \<open>
  A failed \<^verbatim>\<open>assert\<close> aborts the process. Reading or writing through a pointer that is
  null or does not point to a live object of the right type, and \<^verbatim>\<open>free\<close> of such a
  pointer, are undefined behaviour.
\<close>

datatype error = AssertionFailed | UndefinedBehaviour

subsection \<open>The store\<close>

type_synonym addr = nat

text \<open>
  \<^verbatim>\<open>struct MemNode { struct MemNode* next; void *data; struct MemPool* pool; };\<close>
\<close>

record MemNode =
  node_next :: addr
  node_data :: addr
  node_pool :: addr

text \<open>
  \<^verbatim>\<open>struct MemPool { struct MemNode* head; uint32_t mem_size;
                   uint32_t num_allocs; uint32_t num_available; };\<close>
  (the two counters exist only under \<^verbatim>\<open>TRACK_POOL_USAGE\<close>; without it they stay \<open>0\<close>).
\<close>

record MemPool =
  head :: addr
  mem_size :: u32
  num_allocs :: u32
  num_available :: u32

text \<open>\<^verbatim>\<open>struct MultiPool { struct MemPool* pools[MULTIPOOL_ENTRY_COUNT]; };\<close>\<close>

record MultiPool =
  pools :: "addr list"

text \<open>
  The area \<^verbatim>\<open>malloc(pool->mem_size + sizeof(ptrdiff_t))\<close> returns: its first
  \<^verbatim>\<open>sizeof(ptrdiff_t)\<close> bytes hold the address of the owning node, the caller's data
  follows.
\<close>

record DataBlock =
  owner :: addr
  alloc_size :: nat

text \<open>\<^verbatim>\<open>sizeof(ptrdiff_t)\<close>, on a target with 64-bit pointers.\<close>

definition sizeof_ptrdiff_t :: nat where
  "sizeof_ptrdiff_t = 8"

text \<open>
  The store is split by type; address \<open>0\<close> is \<^verbatim>\<open>NULL\<close>. \<open>malloc_results\<close> lists what
  the following calls of \<^verbatim>\<open>malloc\<close> return, in order (\<open>0\<close> for a failed call, and every
  call fails once the list is used up). \<open>cas_spurious\<close> lists whether the following weak
  compare-and-exchange operations fail spuriously (none does once the list is used up).
\<close>

record state =
  nodes :: "(addr, MemNode) fmap"
  blocks :: "(addr, DataBlock) fmap"
  mempools :: "(addr, MemPool) fmap"
  multipools :: "(addr, MultiPool) fmap"
  global_multipool :: addr
  malloc_results :: "addr list"
  cas_spurious :: "bool list"

definition get_node :: "state \<Rightarrow> addr \<Rightarrow> MemNode option" where
  "get_node s a = (if a = 0 then None else fmlookup (nodes s) a)"

definition get_block :: "state \<Rightarrow> addr \<Rightarrow> DataBlock option" where
  "get_block s a = (if a = 0 then None else fmlookup (blocks s) a)"

definition get_pool :: "state \<Rightarrow> addr \<Rightarrow> MemPool option" where
  "get_pool s a = (if a = 0 then None else fmlookup (mempools s) a)"

definition get_multipool :: "state \<Rightarrow> addr \<Rightarrow> MultiPool option" where
  "get_multipool s a = (if a = 0 then None else fmlookup (multipools s) a)"

definition set_node :: "addr \<Rightarrow> MemNode \<Rightarrow> state \<Rightarrow> state" where
  "set_node a v s = s\<lparr>nodes := fmupd a v (nodes s)\<rparr>"

definition set_block :: "addr \<Rightarrow> DataBlock \<Rightarrow> state \<Rightarrow> state" where
  "set_block a v s = s\<lparr>blocks := fmupd a v (blocks s)\<rparr>"

definition set_pool :: "addr \<Rightarrow> MemPool \<Rightarrow> state \<Rightarrow> state" where
  "set_pool a v s = s\<lparr>mempools := fmupd a v (mempools s)\<rparr>"

definition set_multipool :: "addr \<Rightarrow> MultiPool \<Rightarrow> state \<Rightarrow> state" where
  "set_multipool a v s = s\<lparr>multipools := fmupd a v (multipools s)\<rparr>"

text \<open>A write to a field of a pool through a pointer.\<close>

definition upd_pool :: "addr \<Rightarrow> (MemPool \<Rightarrow> MemPool) \<Rightarrow> state \<Rightarrow> error + state" where
  "upd_pool a f s =
     (case get_pool s a of
        None \<Rightarrow> Inl UndefinedBehaviour
      | Some P \<Rightarrow> Inr (set_pool a (f P) s))"

definition malloc :: "state \<Rightarrow> addr \<times> state" where
  "malloc s =
     (case malloc_results s of
        [] \<Rightarrow> (0, s)
      | a # as \<Rightarrow> (a, s\<lparr>malloc_results := as\<rparr>))"

text \<open>\<^verbatim>\<open>free\<close>, by the type of the object released; \<^verbatim>\<open>free(NULL)\<close> does nothing.\<close>

definition free_node :: "addr \<Rightarrow> state \<Rightarrow> error + state" where
  "free_node a s =
     (if a = 0 then Inr s
      else if a |\<in>| fmdom (nodes s) then Inr (s\<lparr>nodes := fmdrop a (nodes s)\<rparr>)
      else Inl UndefinedBehaviour)"

definition free_block :: "addr \<Rightarrow> state \<Rightarrow> error + state" where
  "free_block a s =
     (if a = 0 then Inr s
      else if a |\<in>| fmdom (blocks s) then Inr (s\<lparr>blocks := fmdrop a (blocks s)\<rparr>)
      else Inl UndefinedBehaviour)"

definition free_pool :: "addr \<Rightarrow> state \<Rightarrow> error + state" where
  "free_pool a s =
     (if a = 0 then Inr s
      else if a |\<in>| fmdom (mempools s) then Inr (s\<lparr>mempools := fmdrop a (mempools s)\<rparr>)
      else Inl UndefinedBehaviour)"

definition free_multipool :: "addr \<Rightarrow> state \<Rightarrow> error + state" where
  "free_multipool a s =
     (if a = 0 then Inr s
      else if a |\<in>| fmdom (multipools s) then Inr (s\<lparr>multipools := fmdrop a (multipools s)\<rparr>)
      else Inl UndefinedBehaviour)"

subsection \<open>MemNode operations\<close>

text \<open>
  \<^verbatim>\<open>track_pool_usage_allocs\<close>, \<^verbatim>\<open>track_pool_usage_returned\<close> and
  \<^verbatim>\<open>track_pool_usage_memnode_unavailable\<close>: empty without \<^verbatim>\<open>TRACK_POOL_USAGE\<close>,
  otherwise an atomic add or subtract of \<open>1\<close> on a \<^verbatim>\<open>uint32_t\<close> counter.
\<close>

definition track_pool_usage_allocs :: "config \<Rightarrow> addr \<Rightarrow> state \<Rightarrow> error + state" where
  "track_pool_usage_allocs c pool s =
     (if TRACK_POOL_USAGE c
      then upd_pool pool (\<lambda>P. P\<lparr>num_allocs := num_allocs P + 1\<rparr>) s
      else Inr s)"

definition track_pool_usage_returned :: "config \<Rightarrow> addr \<Rightarrow> state \<Rightarrow> error + state" where
  "track_pool_usage_returned c pool s =
     (if TRACK_POOL_USAGE c
      then upd_pool pool (\<lambda>P. P\<lparr>num_available := num_available P + 1\<rparr>) s
      else Inr s)"

definition track_pool_usage_memnode_unavailable ::
    "config \<Rightarrow> addr \<Rightarrow> state \<Rightarrow> error + state" where
  "track_pool_usage_memnode_unavailable c pool s =
     (if TRACK_POOL_USAGE c
      then upd_pool pool (\<lambda>P. P\<lparr>num_available := num_available P - 1\<rparr>) s
      else Inr s)"

text \<open>
  \<^verbatim>\<open>
  static inline struct MemNode* get_memnode_in_data(void* data) {
      assert(data != NULL);
      ptrdiff_t *node_mem_val = ((ptrdiff_t *)data) - 1;
      struct MemNode *node = (struct MemNode *)(node_mem_val[0]);
      return node;
  }
  \<close>
\<close>

definition get_memnode_in_data :: "config \<Rightarrow> addr \<Rightarrow> state \<Rightarrow> error + addr" where
  "get_memnode_in_data c data s =
     (if \<not> NDEBUG c \<and> data = 0 then Inl AssertionFailed
      else if data < sizeof_ptrdiff_t then Inl UndefinedBehaviour
      else case get_block s (data - sizeof_ptrdiff_t) of
             None \<Rightarrow> Inl UndefinedBehaviour
           | Some b \<Rightarrow> Inr (owner b))"

text \<open>
  \<^verbatim>\<open>
  struct MemNode* alloc_poolable_mem(struct MemPool* pool) {
      assert(pool != NULL);
      assert(pool->mem_size != 0);
      struct MemNode* node = malloc(sizeof(struct MemNode));
      if (node == NULL) { return NULL; }
      node->next = NULL;
      ptrdiff_t* ptr_data = malloc(pool->mem_size + sizeof(ptrdiff_t));
      if(ptr_data == NULL) { free(node); return NULL; }
      ptr_data[0] = (ptrdiff_t) node;
      node->data = ptr_data+1;
      node->pool = pool;
      return node;
  }
  \<close>
  The fields \<^verbatim>\<open>data\<close> and \<^verbatim>\<open>pool\<close> of the new node are indeterminate until they are
  written; nothing reads them before, and the model holds \<open>0\<close> there in between.
\<close>

definition alloc_poolable_mem :: "config \<Rightarrow> addr \<Rightarrow> state \<Rightarrow> error + (addr \<times> state)" where
  "alloc_poolable_mem c pool s =
     (if \<not> NDEBUG c \<and> pool = 0 then Inl AssertionFailed
      else if \<not> NDEBUG c \<and> get_pool s pool = None then Inl UndefinedBehaviour
      else if \<not> NDEBUG c \<and> map_option mem_size (get_pool s pool) = Some 0
        then Inl AssertionFailed
      else case malloc s of (node, s1) \<Rightarrow>
        if node = 0 then Inr (0, s1)
        else
          let s2 = set_node node \<lparr>node_next = 0, node_data = 0, node_pool = 0\<rparr> s1
          in case get_pool s2 pool of
               None \<Rightarrow> Inl UndefinedBehaviour
             | Some P \<Rightarrow>
                 (case malloc s2 of (ptr_data, s3) \<Rightarrow>
                    if ptr_data = 0
                    then (case free_node node s3 of
                            Inl e \<Rightarrow> Inl e
                          | Inr s4 \<Rightarrow> Inr (0, s4))
                    else
                      let s4 = set_block ptr_data
                                 \<lparr>owner = node,
                                  alloc_size = unat (mem_size P) + sizeof_ptrdiff_t\<rparr> s3;
                          s5 = set_node node
                                 \<lparr>node_next = 0,
                                  node_data = ptr_data + sizeof_ptrdiff_t,
                                  node_pool = pool\<rparr> s4
                      in Inr (node, s5)))"

text \<open>
  \<^verbatim>\<open>
  void free_poolable_mem(struct MemNode* node) {
      assert(node != NULL);
      ptrdiff_t* ptr_data = node->data;
      void* node_data = ptr_data-1;
      free(node_data);
      free(node);
  }
  \<close>
\<close>

definition free_poolable_mem :: "config \<Rightarrow> addr \<Rightarrow> state \<Rightarrow> error + state" where
  "free_poolable_mem c node s =
     (if \<not> NDEBUG c \<and> node = 0 then Inl AssertionFailed
      else case get_node s node of
             None \<Rightarrow> Inl UndefinedBehaviour
           | Some nd \<Rightarrow>
               if node_data nd < sizeof_ptrdiff_t then Inl UndefinedBehaviour
               else case free_block (node_data nd - sizeof_ptrdiff_t) s of
                      Inl e \<Rightarrow> Inl e
                    | Inr s1 \<Rightarrow> free_node node s1)"

subsection \<open>MemPool operations\<close>

text \<open>
  \<^verbatim>\<open>
  struct MemPool* alloc_mem_pool(uint32_t size) {
      struct MemPool* pool = malloc(sizeof(struct MemPool));
      if(pool == NULL) { return NULL; }
      memset((void*)pool, 0, sizeof(struct MemPool));
      pool->mem_size = size;
      return pool;
  }
  \<close>
\<close>

definition alloc_mem_pool :: "u32 \<Rightarrow> state \<Rightarrow> addr \<times> state" where
  "alloc_mem_pool sz s =
     (case malloc s of (pool, s1) \<Rightarrow>
        if pool = 0 then (0, s1)
        else (pool, set_pool pool
                \<lparr>head = 0, mem_size = sz, num_allocs = 0, num_available = 0\<rparr> s1))"

text \<open>
  \<^verbatim>\<open>
  void pool_mem_free_all(struct MemPool* pool) {
      assert(pool != NULL);
      struct MemNode* node = pool->head;
      while(node != NULL) {
          pool->head = node->next;
          free_poolable_mem(node);
          track_pool_usage_memnode_unavailable(pool);
          node = pool->head;
      }
  }
  \<close>
  Every turn of the loop that does not fail releases one live node, so the number of live
  nodes bounds the number of turns.
\<close>

lemma free_poolable_mem_nodes:
  assumes "free_poolable_mem c node s = Inr s'" and "node \<noteq> 0"
  shows "fcard (fmdom (nodes s')) < fcard (fmdom (nodes s))"
proof -
  from assms obtain nd s1 where nd: "get_node s node = Some nd"
    and fb: "free_block (node_data nd - sizeof_ptrdiff_t) s = Inr s1"
    and fn: "free_node node s1 = Inr s'"
    by (auto simp: free_poolable_mem_def split: if_splits option.splits sum.splits)
  from fb have n1: "nodes s1 = nodes s"
    by (auto simp: free_block_def split: if_splits)
  from nd have live: "node |\<in>| fmdom (nodes s)"
    by (auto simp: get_node_def split: if_splits intro: fmdomI)
  from fn assms(2) live n1 have "nodes s' = fmdrop node (nodes s)"
    by (auto simp: free_node_def split: if_splits)
  with live show ?thesis
    by (metis fmdom_drop fcard_fminus1_less)
qed

lemma upd_pool_nodes: "upd_pool a f s = Inr s' \<Longrightarrow> nodes s' = nodes s"
  by (auto simp: upd_pool_def set_pool_def split: option.splits)

lemma track_pool_usage_memnode_unavailable_nodes:
  "track_pool_usage_memnode_unavailable c pool s = Inr s' \<Longrightarrow> nodes s' = nodes s"
  by (auto simp: track_pool_usage_memnode_unavailable_def upd_pool_nodes split: if_splits)

function pool_mem_free_all_loop :: "config \<Rightarrow> addr \<Rightarrow> addr \<Rightarrow> state \<Rightarrow> error + state" where
  "pool_mem_free_all_loop c pool node s =
     (if node = 0 then Inr s
      else case get_node s node of
             None \<Rightarrow> Inl UndefinedBehaviour
           | Some nd \<Rightarrow>
               (case upd_pool pool (\<lambda>P. P\<lparr>head := node_next nd\<rparr>) s of
                  Inl e \<Rightarrow> Inl e
                | Inr s1 \<Rightarrow>
                    (case free_poolable_mem c node s1 of
                       Inl e \<Rightarrow> Inl e
                     | Inr s2 \<Rightarrow>
                         (case track_pool_usage_memnode_unavailable c pool s2 of
                            Inl e \<Rightarrow> Inl e
                          | Inr s3 \<Rightarrow>
                              (case get_pool s3 pool of
                                 None \<Rightarrow> Inl UndefinedBehaviour
                               | Some P \<Rightarrow> pool_mem_free_all_loop c pool (head P) s3)))))"
  by pat_completeness auto
termination
proof (relation "measure (\<lambda>(c, pool, node, s). fcard (fmdom (nodes s)))")
  show "wf (measure (\<lambda>(c, pool, node, s). fcard (fmdom (nodes s))))"
    by simp
next
  fix c :: config and pool node :: addr and s s1 s2 s3 :: state
    and nd :: MemNode and P :: MemPool
  assume "node \<noteq> 0"
    and "upd_pool pool (\<lambda>P. P\<lparr>head := node_next nd\<rparr>) s = Inr s1"
    and "free_poolable_mem c node s1 = Inr s2"
    and "track_pool_usage_memnode_unavailable c pool s2 = Inr s3"
  then have "fcard (fmdom (nodes s3)) < fcard (fmdom (nodes s))"
    using free_poolable_mem_nodes[of c node s1 s2]
    by (simp add: upd_pool_nodes track_pool_usage_memnode_unavailable_nodes)
  then show "((c, pool, head P, s3), (c, pool, node, s))
      \<in> measure (\<lambda>(c, pool, node, s). fcard (fmdom (nodes s)))"
    by simp
qed

definition pool_mem_free_all :: "config \<Rightarrow> addr \<Rightarrow> state \<Rightarrow> error + state" where
  "pool_mem_free_all c pool s =
     (if \<not> NDEBUG c \<and> pool = 0 then Inl AssertionFailed
      else case get_pool s pool of
             None \<Rightarrow> Inl UndefinedBehaviour
           | Some P \<Rightarrow> pool_mem_free_all_loop c pool (head P) s)"

text \<open>
  \<^verbatim>\<open>
  void free_mem_pool(struct MemPool* pool) {
      assert(pool != NULL);
      pool_mem_free_all(pool);
      free(pool);
  }
  \<close>
\<close>

definition free_mem_pool :: "config \<Rightarrow> addr \<Rightarrow> state \<Rightarrow> error + state" where
  "free_mem_pool c pool s =
     (if \<not> NDEBUG c \<and> pool = 0 then Inl AssertionFailed
      else case pool_mem_free_all c pool s of
             Inl e \<Rightarrow> Inl e
           | Inr s1 \<Rightarrow> free_pool pool s1)"

subsection \<open>Acquire and return\<close>

text \<open>
  \<^verbatim>\<open>
  void* pool_mem_try_alloc_data(struct MemPool* pool)  {
      assert(pool != NULL);
      struct MemNode* node = alloc_poolable_mem(pool);
      if(node == NULL) { return NULL; }
      track_pool_usage_allocs(pool);
      return node->data;
  }
  \<close>
\<close>

definition pool_mem_try_alloc_data ::
    "config \<Rightarrow> addr \<Rightarrow> state \<Rightarrow> error + (addr \<times> state)" where
  "pool_mem_try_alloc_data c pool s =
     (if \<not> NDEBUG c \<and> pool = 0 then Inl AssertionFailed
      else case alloc_poolable_mem c pool s of
             Inl e \<Rightarrow> Inl e
           | Inr (node, s1) \<Rightarrow>
               if node = 0 then Inr (0, s1)
               else case track_pool_usage_allocs c pool s1 of
                      Inl e \<Rightarrow> Inl e
                    | Inr s2 \<Rightarrow>
                        (case get_node s2 node of
                           None \<Rightarrow> Inl UndefinedBehaviour
                         | Some nd \<Rightarrow> Inr (node_data nd, s2)))"

text \<open>
  \<^verbatim>\<open>__atomic_compare_exchange_n(&pool->head, &previous_head, new_head, true, ...)\<close>:
  the weak compare-and-exchange on the head of a pool. It fails when the head is not the
  expected value, and it may fail spuriously; otherwise it stores the new head. On failure
  it writes the current head into \<^verbatim>\<open>previous_head\<close>, which both callers load again before
  they use it, so the model returns only whether the exchange took place.
\<close>

definition atomic_compare_exchange_head ::
    "addr \<Rightarrow> addr \<Rightarrow> addr \<Rightarrow> state \<Rightarrow> error + (bool \<times> state)" where
  "atomic_compare_exchange_head pool expected desired s =
     (case get_pool s pool of
        None \<Rightarrow> Inl UndefinedBehaviour
      | Some P \<Rightarrow>
          if head P \<noteq> expected then Inr (False, s)
          else case cas_spurious s of
                 [] \<Rightarrow> Inr (True, set_pool pool (P\<lparr>head := desired\<rparr>) s)
               | fails # rest \<Rightarrow>
                   if fails then Inr (False, s\<lparr>cas_spurious := rest\<rparr>)
                   else Inr (True, set_pool pool (P\<lparr>head := desired\<rparr>)
                                     (s\<lparr>cas_spurious := rest\<rparr>)))"

lemma atomic_compare_exchange_head_fails:
  assumes "atomic_compare_exchange_head pool (head P) desired s = Inr (False, s')"
    and "get_pool s pool = Some P"
  shows "length (cas_spurious s') < length (cas_spurious s)"
  using assms
  by (auto simp: atomic_compare_exchange_head_def split: list.splits if_splits)

text \<open>
  \<^verbatim>\<open>
  void* pool_mem_acquire(struct MemPool* pool) {
      assert(pool != NULL);
      while (true) {
          struct MemNode* previous_head = __atomic_load_n(&pool->head, __ATOMIC_ACQUIRE);
          if (previous_head == NULL) {
              return pool_mem_try_alloc_data(pool);
          }
          struct MemNode* new_head = __atomic_load_n(&previous_head->next,__ATOMIC_ACQUIRE);
          if (__atomic_compare_exchange_n(&pool->head, &previous_head, new_head, true,
                                          __ATOMIC_SEQ_CST, __ATOMIC_SEQ_CST)) {
              track_pool_usage_memnode_unavailable(pool);
              return previous_head->data;
          }
      }
  }
  \<close>
\<close>

function pool_mem_acquire_loop :: "config \<Rightarrow> addr \<Rightarrow> state \<Rightarrow> error + (addr \<times> state)" where
  "pool_mem_acquire_loop c pool s =
     (case get_pool s pool of
        None \<Rightarrow> Inl UndefinedBehaviour
      | Some P \<Rightarrow>
          if head P = 0 then pool_mem_try_alloc_data c pool s
          else case get_node s (head P) of
                 None \<Rightarrow> Inl UndefinedBehaviour
               | Some nd \<Rightarrow>
                   (case atomic_compare_exchange_head pool (head P) (node_next nd) s of
                      Inl e \<Rightarrow> Inl e
                    | Inr (exchanged, s1) \<Rightarrow>
                        if exchanged
                        then (case track_pool_usage_memnode_unavailable c pool s1 of
                                Inl e \<Rightarrow> Inl e
                              | Inr s2 \<Rightarrow>
                                  (case get_node s2 (head P) of
                                     None \<Rightarrow> Inl UndefinedBehaviour
                                   | Some nd' \<Rightarrow> Inr (node_data nd', s2)))
                        else pool_mem_acquire_loop c pool s1))"
  by pat_completeness auto
termination
proof (relation "measure (\<lambda>(c, pool, s). length (cas_spurious s))")
  show "wf (measure (\<lambda>(c, pool, s). length (cas_spurious s)))"
    by simp
next
  fix c :: config and pool :: addr and s s1 :: state and P :: MemPool and nd :: MemNode
    and x :: "bool \<times> state" and exchanged :: bool
  assume "get_pool s pool = Some P"
    and "atomic_compare_exchange_head pool (head P) (node_next nd) s = Inr x"
    and "(exchanged, s1) = x" and "\<not> exchanged"
  then have "length (cas_spurious s1) < length (cas_spurious s)"
    using atomic_compare_exchange_head_fails[of pool P "node_next nd" s s1] by simp
  then show "((c, pool, s1), (c, pool, s)) \<in> measure (\<lambda>(c, pool, s). length (cas_spurious s))"
    by simp
qed

definition pool_mem_acquire :: "config \<Rightarrow> addr \<Rightarrow> state \<Rightarrow> error + (addr \<times> state)" where
  "pool_mem_acquire c pool s =
     (if \<not> NDEBUG c \<and> pool = 0 then Inl AssertionFailed
      else pool_mem_acquire_loop c pool s)"

text \<open>
  \<^verbatim>\<open>
  void pool_mem_return(void* data) {
      assert(data != NULL);
      struct MemNode* new_head = get_memnode_in_data(data);
      struct MemPool* pool = new_head->pool;
      while (true) {
          struct MemNode* previous_head = __atomic_load_n(&pool->head, __ATOMIC_ACQUIRE);
          __atomic_store_n(&new_head->next, previous_head, __ATOMIC_RELEASE);
          if (__atomic_compare_exchange_n(&pool->head, &previous_head, new_head, true,
                                          __ATOMIC_SEQ_CST, __ATOMIC_SEQ_CST)) {
              track_pool_usage_returned(pool);
              return;
          }
      }
  }
  \<close>
\<close>

function pool_mem_return_loop :: "config \<Rightarrow> addr \<Rightarrow> addr \<Rightarrow> state \<Rightarrow> error + state" where
  "pool_mem_return_loop c pool new_head s =
     (case get_pool s pool of
        None \<Rightarrow> Inl UndefinedBehaviour
      | Some P \<Rightarrow>
          (case get_node s new_head of
             None \<Rightarrow> Inl UndefinedBehaviour
           | Some nd \<Rightarrow>
               (case atomic_compare_exchange_head pool (head P) new_head
                       (set_node new_head (nd\<lparr>node_next := head P\<rparr>) s) of
                  Inl e \<Rightarrow> Inl e
                | Inr (exchanged, s1) \<Rightarrow>
                    if exchanged then track_pool_usage_returned c pool s1
                    else pool_mem_return_loop c pool new_head s1)))"
  by pat_completeness auto
termination
proof (relation "measure (\<lambda>(c, pool, new_head, s). length (cas_spurious s))")
  show "wf (measure (\<lambda>(c, pool, new_head, s). length (cas_spurious s)))"
    by simp
next
  fix c :: config and pool new_head :: addr and s s1 :: state and P :: MemPool
    and nd :: MemNode and x :: "bool \<times> state" and exchanged :: bool
  let ?s = "set_node new_head (nd\<lparr>node_next := head P\<rparr>) s"
  assume gp: "get_pool s pool = Some P"
    and "atomic_compare_exchange_head pool (head P) new_head ?s = Inr x"
    and "(exchanged, s1) = x" and "\<not> exchanged"
  then have cas: "atomic_compare_exchange_head pool (head P) new_head ?s = Inr (False, s1)"
    by auto
  have "get_pool ?s pool = get_pool s pool"
    by (simp add: get_pool_def set_node_def)
  with gp have "get_pool ?s pool = Some P"
    by simp
  with cas have "length (cas_spurious s1) < length (cas_spurious ?s)"
    by (rule atomic_compare_exchange_head_fails)
  then show "((c, pool, new_head, s1), (c, pool, new_head, s))
      \<in> measure (\<lambda>(c, pool, new_head, s). length (cas_spurious s))"
    by (simp add: set_node_def)
qed

definition pool_mem_return :: "config \<Rightarrow> addr \<Rightarrow> state \<Rightarrow> error + state" where
  "pool_mem_return c data s =
     (if \<not> NDEBUG c \<and> data = 0 then Inl AssertionFailed
      else case get_memnode_in_data c data s of
             Inl e \<Rightarrow> Inl e
           | Inr new_head \<Rightarrow>
               (case get_node s new_head of
                  None \<Rightarrow> Inl UndefinedBehaviour
                | Some nd \<Rightarrow> pool_mem_return_loop c (node_pool nd) new_head s))"

subsection \<open>Multipool\<close>

text \<open>Reading and writing \<^verbatim>\<open>multipool->pools[i]\<close>.\<close>

definition get_pools_entry :: "state \<Rightarrow> addr \<Rightarrow> nat \<Rightarrow> error + addr" where
  "get_pools_entry s multipool i =
     (case get_multipool s multipool of
        None \<Rightarrow> Inl UndefinedBehaviour
      | Some M \<Rightarrow>
          if i < length (pools M) then Inr (pools M ! i) else Inl UndefinedBehaviour)"

definition set_pools_entry :: "addr \<Rightarrow> nat \<Rightarrow> addr \<Rightarrow> state \<Rightarrow> error + state" where
  "set_pools_entry multipool i pool s =
     (case get_multipool s multipool of
        None \<Rightarrow> Inl UndefinedBehaviour
      | Some M \<Rightarrow>
          if i < length (pools M)
          then Inr (set_multipool multipool (M\<lparr>pools := (pools M)[i := pool]\<rparr>) s)
          else Inl UndefinedBehaviour)"

text \<open>
  \<^verbatim>\<open>
  struct MultiPool* multipool_create(void) {
      struct MultiPool* multipool = malloc(sizeof(struct MultiPool));
      if(multipool != NULL) {
          for(uint32_t i = 0 ; i < MULTIPOOL_ENTRY_COUNT ; i++) {
              uint32_t size = 1 << ((uint32_t)DynPoolMinMultiPoolMemNodeSizeBits+i);
              struct MemPool* pool = alloc_mem_pool(size);
              multipool->pools[i] = pool;
          }
      }
      return multipool;
  }
  \<close>
  The entries of \<^verbatim>\<open>pools\<close> are indeterminate after \<^verbatim>\<open>malloc\<close>; the loop writes each of
  them before anything reads it, and the model holds \<open>0\<close> there in between.
\<close>

function multipool_create_loop :: "addr \<Rightarrow> nat \<Rightarrow> state \<Rightarrow> error + state" where
  "multipool_create_loop multipool i s =
     (if i < MULTIPOOL_ENTRY_COUNT
      then case alloc_mem_pool (push_bit (DynPoolMinMultiPoolMemNodeSizeBits + i) 1) s of
             (pool, s1) \<Rightarrow>
               (case set_pools_entry multipool i pool s1 of
                  Inl e \<Rightarrow> Inl e
                | Inr s2 \<Rightarrow> multipool_create_loop multipool (i + 1) s2)
      else Inr s)"
  by pat_completeness auto
termination
  by (relation "measure (\<lambda>(multipool, i, s). MULTIPOOL_ENTRY_COUNT - i)") auto

definition multipool_create :: "state \<Rightarrow> error + (addr \<times> state)" where
  "multipool_create s =
     (case malloc s of (multipool, s1) \<Rightarrow>
        if multipool \<noteq> 0
        then case multipool_create_loop multipool 0
                    (set_multipool multipool
                       \<lparr>pools = replicate MULTIPOOL_ENTRY_COUNT 0\<rparr> s1) of
               Inl e \<Rightarrow> Inl e
             | Inr s2 \<Rightarrow> Inr (multipool, s2)
        else Inr (multipool, s1))"

text \<open>
  \<^verbatim>\<open>
  void multipool_free(struct MultiPool* multipool) {
      assert(multipool != NULL);
      for(int i = 0 ; i < MULTIPOOL_ENTRY_COUNT ; i++) {
          free_mem_pool(multipool->pools[i]);
      }
      free(multipool);
  }
  \<close>
\<close>

function multipool_free_loop :: "config \<Rightarrow> addr \<Rightarrow> nat \<Rightarrow> state \<Rightarrow> error + state" where
  "multipool_free_loop c multipool i s =
     (if i < MULTIPOOL_ENTRY_COUNT
      then case get_pools_entry s multipool i of
             Inl e \<Rightarrow> Inl e
           | Inr pool \<Rightarrow>
               (case free_mem_pool c pool s of
                  Inl e \<Rightarrow> Inl e
                | Inr s1 \<Rightarrow> multipool_free_loop c multipool (i + 1) s1)
      else Inr s)"
  by pat_completeness auto
termination
  by (relation "measure (\<lambda>(c, multipool, i, s). MULTIPOOL_ENTRY_COUNT - i)") auto

definition multipool_free :: "config \<Rightarrow> addr \<Rightarrow> state \<Rightarrow> error + state" where
  "multipool_free c multipool s =
     (if \<not> NDEBUG c \<and> multipool = 0 then Inl AssertionFailed
      else case multipool_free_loop c multipool 0 s of
             Inl e \<Rightarrow> Inl e
           | Inr s1 \<Rightarrow> free_multipool multipool s1)"

text \<open>
  \<^verbatim>\<open>
  void* multipool_mem_acquire(struct MultiPool* multipool, uint32_t size) {
      assert(multipool != NULL);
      uint32_t index = find_multipool_index_for_size(size);
      assert(index < MULTIPOOL_ENTRY_COUNT);
      if (__builtin_expect(index >= MULTIPOOL_ENTRY_COUNT, 0)) {
          return NULL;
      }
      struct MemPool* pool = multipool->pools[index];
      return pool_mem_acquire(pool);
  }
  \<close>
\<close>

definition multipool_mem_acquire ::
    "config \<Rightarrow> addr \<Rightarrow> u32 \<Rightarrow> state \<Rightarrow> error + (addr \<times> state)" where
  "multipool_mem_acquire c multipool sz s =
     (if \<not> NDEBUG c \<and> multipool = 0 then Inl AssertionFailed
      else
        let index = find_multipool_index_for_size sz
        in if \<not> NDEBUG c \<and> \<not> unat index < MULTIPOOL_ENTRY_COUNT then Inl AssertionFailed
           else if unat index \<ge> MULTIPOOL_ENTRY_COUNT then Inr (0, s)
           else case get_pools_entry s multipool (unat index) of
                  Inl e \<Rightarrow> Inl e
                | Inr pool \<Rightarrow> pool_mem_acquire c pool s)"

subsection \<open>Global multipool\<close>

text \<open>
  \<^verbatim>\<open>
  struct MultiPool* _global_multipool = NULL;
  void global_multipool_create(void) { _global_multipool = multipool_create(); }
  void* global_multipool_mem_acquire(uint32_t size) {
      assert(_global_multipool != NULL);
      return multipool_mem_acquire(_global_multipool, size);
  }
  void global_multipool_free(void) { multipool_free(_global_multipool); }
  \<close>
\<close>

definition global_multipool_create :: "state \<Rightarrow> error + state" where
  "global_multipool_create s =
     (case multipool_create s of
        Inl e \<Rightarrow> Inl e
      | Inr (multipool, s1) \<Rightarrow> Inr (s1\<lparr>global_multipool := multipool\<rparr>))"

definition global_multipool_mem_acquire ::
    "config \<Rightarrow> u32 \<Rightarrow> state \<Rightarrow> error + (addr \<times> state)" where
  "global_multipool_mem_acquire c sz s =
     (if \<not> NDEBUG c \<and> global_multipool s = 0 then Inl AssertionFailed
      else multipool_mem_acquire c (global_multipool s) sz s)"

definition global_multipool_free :: "config \<Rightarrow> state \<Rightarrow> error + state" where
  "global_multipool_free c s = multipool_free c (global_multipool s) s"

subsection \<open>Notions used in the statements\<close>

text \<open>
  The effect of the three usage counters on a pool, and the part of \<open>cas_spurious\<close> that
  is left once a compare-and-exchange has taken place.
\<close>

definition count_alloc :: "config \<Rightarrow> MemPool \<Rightarrow> MemPool" where
  "count_alloc c P = (if TRACK_POOL_USAGE c then P\<lparr>num_allocs := num_allocs P + 1\<rparr> else P)"

definition count_returned :: "config \<Rightarrow> MemPool \<Rightarrow> MemPool" where
  "count_returned c P =
     (if TRACK_POOL_USAGE c then P\<lparr>num_available := num_available P + 1\<rparr> else P)"

definition count_unavailable :: "config \<Rightarrow> MemPool \<Rightarrow> MemPool" where
  "count_unavailable c P =
     (if TRACK_POOL_USAGE c then P\<lparr>num_available := num_available P - 1\<rparr> else P)"

definition after_exchange :: "bool list \<Rightarrow> bool list" where
  "after_exchange fs = (case dropWhile id fs of [] \<Rightarrow> [] | f # rest \<Rightarrow> rest)"

text \<open>
  \<open>block_of s pool p\<close>: the pointer \<open>p\<close> is the data pointer of a live block whose node
  names \<open>pool\<close> as its owner, which is what \<^verbatim>\<open>pool_mem_acquire(pool)\<close> hands out.
\<close>

definition block_of :: "state \<Rightarrow> addr \<Rightarrow> addr \<Rightarrow> bool" where
  "block_of s pool p \<longleftrightarrow>
     sizeof_ptrdiff_t \<le> p \<and> get_pool s pool \<noteq> None \<and>
     (case get_block s (p - sizeof_ptrdiff_t) of
        None \<Rightarrow> False
      | Some b \<Rightarrow>
          (case get_node s (owner b) of
             None \<Rightarrow> False
           | Some nd \<Rightarrow> node_data nd = p \<and> node_pool nd = pool))"

text \<open>
  The shape of the store that allocation, acquire and return keep: the hidden prefix of
  every node's data area points back to the node, the node's pool is live, a non-null
  \<^verbatim>\<open>next\<close> leads to a live node of the same pool, and the head of a pool is a node of
  that pool.
\<close>

definition node_wf :: "state \<Rightarrow> addr \<Rightarrow> MemNode \<Rightarrow> bool" where
  "node_wf s n nd \<longleftrightarrow>
     sizeof_ptrdiff_t \<le> node_data nd \<and>
     map_option owner (get_block s (node_data nd - sizeof_ptrdiff_t)) = Some n \<and>
     get_pool s (node_pool nd) \<noteq> None \<and>
     (node_next nd \<noteq> 0 \<longrightarrow>
        map_option node_pool (get_node s (node_next nd)) = Some (node_pool nd))"

definition pool_wf :: "state \<Rightarrow> addr \<Rightarrow> MemPool \<Rightarrow> bool" where
  "pool_wf s pool P \<longleftrightarrow>
     (head P \<noteq> 0 \<longrightarrow> map_option node_pool (get_node s (head P)) = Some pool)"

definition store_inv :: "state \<Rightarrow> bool" where
  "store_inv s \<longleftrightarrow>
     (\<forall>n nd. get_node s n = Some nd \<longrightarrow> node_wf s n nd) \<and>
     (\<forall>pool P. get_pool s pool = Some P \<longrightarrow> pool_wf s pool P)"

text \<open>
  The block size of class \<open>i\<close> as \<^verbatim>\<open>multipool_create\<close> computes it, and the pool
  \<^verbatim>\<open>alloc_mem_pool\<close> initialises.
\<close>

definition class_size :: "nat \<Rightarrow> u32" where
  "class_size i = push_bit (DynPoolMinMultiPoolMemNodeSizeBits + i) 1"

definition new_pool :: "u32 \<Rightarrow> MemPool" where
  "new_pool sz = \<lparr>head = 0, mem_size = sz, num_allocs = 0, num_available = 0\<rparr>"

text \<open>
  The allocator hands out addresses that are not in use: the next \<^verbatim>\<open>malloc\<close> result is
  not a live node, the one after it not a live data area (the two allocations of
  \<^verbatim>\<open>alloc_poolable_mem\<close>, in this order).
\<close>

definition malloc_fresh :: "state \<Rightarrow> bool" where
  "malloc_fresh s \<longleftrightarrow>
     (case malloc_results s of
        [] \<Rightarrow> True
      | n # r \<Rightarrow>
          get_node s n = None \<and>
          (case r of [] \<Rightarrow> True | b # r' \<Rightarrow> get_block s b = None))"

text \<open>
  A sequence of calls of the interface that leave every pool in place: acquire and return on
  a pool, creation of a pool, creation of and acquire on a multipool and on the global
  multipool. \<open>run_calls c calls s\<close> is the store after the calls, when none of them aborts or
  has undefined behaviour and the allocator hands out unused addresses at every acquire.
\<close>

datatype pool_call =
    Acquire addr
  | Return addr
  | AllocPool u32
  | MultiCreate
  | MultiAcquire addr u32
  | GlobalCreate
  | GlobalAcquire u32

fun run_calls :: "config \<Rightarrow> pool_call list \<Rightarrow> state \<Rightarrow> state option" where
  "run_calls c [] s = Some s"
| "run_calls c (Acquire pool # calls) s =
     (if malloc_fresh s
      then case pool_mem_acquire c pool s of
             Inl e \<Rightarrow> None
           | Inr (p, s') \<Rightarrow> run_calls c calls s'
      else None)"
| "run_calls c (Return p # calls) s =
     (case pool_mem_return c p s of
        Inl e \<Rightarrow> None
      | Inr s' \<Rightarrow> run_calls c calls s')"
| "run_calls c (AllocPool sz # calls) s =
     (case alloc_mem_pool sz s of (pool, s') \<Rightarrow> run_calls c calls s')"
| "run_calls c (MultiCreate # calls) s =
     (case multipool_create s of
        Inl e \<Rightarrow> None
      | Inr (multipool, s') \<Rightarrow> run_calls c calls s')"
| "run_calls c (MultiAcquire multipool sz # calls) s =
     (if malloc_fresh s
      then case multipool_mem_acquire c multipool sz s of
             Inl e \<Rightarrow> None
           | Inr (p, s') \<Rightarrow> run_calls c calls s'
      else None)"
| "run_calls c (GlobalCreate # calls) s =
     (case global_multipool_create s of
        Inl e \<Rightarrow> None
      | Inr s' \<Rightarrow> run_calls c calls s')"
| "run_calls c (GlobalAcquire sz # calls) s =
     (if malloc_fresh s
      then case global_multipool_mem_acquire c sz s of
             Inl e \<Rightarrow> None
           | Inr (p, s') \<Rightarrow> run_calls c calls s'
      else None)"

subsection \<open>Concrete stores\<close>

text \<open>
  Stores on which the statements below are run: one before anything is allocated, with the
  addresses the allocator will hand out; the multipool and the global multipool built from
  it; a pool of block size \<open>4096\<close> with one idle block and two spurious failures ahead; and
  an empty pool whose next data allocation fails.
\<close>

definition example_boot :: state where
  "example_boot =
     \<lparr>nodes = fmempty, blocks = fmempty, mempools = fmempty, multipools = fmempty,
      global_multipool = 0,
      malloc_results = [4096, 8192, 8224, 8256, 8288, 8320, 8352, 8384, 8416, 8448, 8480,
                        8512, 8544, 8576, 8608, 12288, 16384],
      cas_spurious = []\<rparr>"

definition example_multipool :: "addr \<times> state" where
  "example_multipool =
     (case multipool_create example_boot of Inr r \<Rightarrow> r | Inl e \<Rightarrow> (0, example_boot))"

definition example_global :: state where
  "example_global =
     (case global_multipool_create example_boot of Inr s \<Rightarrow> s | Inl e \<Rightarrow> example_boot)"

definition example_pool :: state where
  "example_pool =
     \<lparr>nodes = fmupd 128 \<lparr>node_next = 0, node_data = 264, node_pool = 64\<rparr> fmempty,
      blocks = fmupd 256 \<lparr>owner = 128, alloc_size = 4104\<rparr> fmempty,
      mempools = fmupd 64 \<lparr>head = 128, mem_size = 4096, num_allocs = 1,
                            num_available = 1\<rparr> fmempty,
      multipools = fmempty, global_multipool = 0,
      malloc_results = [512, 1024], cas_spurious = [True, True, False]\<rparr>"

definition example_empty_pool :: state where
  "example_empty_pool =
     \<lparr>nodes = fmempty, blocks = fmempty,
      mempools = fmupd 64 \<lparr>head = 0, mem_size = 4096, num_allocs = 0,
                            num_available = 0\<rparr> fmempty,
      multipools = fmempty, global_multipool = 0,
      malloc_results = [128, 0, 160, 256], cas_spurious = []\<rparr>"

definition example_config :: config where
  "example_config = \<lparr>NDEBUG = False, TRACK_POOL_USAGE = True\<rparr>"

declare pool_mem_free_all_loop.simps [simp del]
declare pool_mem_acquire_loop.simps [simp del]
declare pool_mem_return_loop.simps [simp del]
declare multipool_create_loop.simps [simp del]
declare multipool_free_loop.simps [simp del]

section \<open>Properties of the size classes\<close>

subsection \<open>Leading zeros and bit length\<close>

lemma bit_unat_odd: "bit (w::u32) n \<longleftrightarrow> odd (unat w div 2 ^ n)"
proof -
  have "bit (unat w) n \<longleftrightarrow> bit w n"
    by (simp add: bit_unsigned_iff)
  then show ?thesis
    by (simp add: bit_iff_odd)
qed

lemma bit_imp_le_unat: "bit (w::u32) n \<Longrightarrow> 2 ^ n \<le> unat w"
proof -
  assume "bit w n"
  then have "odd (unat w div 2 ^ n)" by (simp add: bit_unat_odd)
  then have "unat w div 2 ^ n \<noteq> 0" by (metis even_zero)
  then show ?thesis
    by (metis div_less not_le_imp_less)
qed

lemma not_bit_imp_unat_less: "\<not> bit (w::u32) n \<Longrightarrow> unat w < 2 ^ Suc n \<Longrightarrow> unat w < 2 ^ n"
proof -
  assume a: "\<not> bit w n" and b: "unat w < 2 ^ Suc n"
  from a have e: "even (unat w div 2 ^ n)" by (simp add: bit_unat_odd)
  from b have "unat w div 2 ^ n < 2"
    by (simp add: less_mult_imp_div_less)
  with e have "unat w div 2 ^ n = 0"
    by (auto simp: less_2_cases_iff)
  then show ?thesis
    by (simp add: div_eq_0_iff)
qed

lemma clz_from_le: "clz_from n w \<le> n"
  by (induction n) auto

lemma clz_from_upper: "unat w < 2 ^ n \<Longrightarrow> unat w < 2 ^ (n - clz_from n w)"
proof (induction n)
  case 0 then show ?case by simp
next
  case (Suc n)
  show ?case
  proof (cases "bit w n")
    case True then show ?thesis using Suc.prems by simp
  next
    case False
    then have "unat w < 2 ^ n" using Suc.prems by (rule not_bit_imp_unat_less)
    then show ?thesis using False Suc.IH by simp
  qed
qed

lemma clz_from_lower: "w \<noteq> 0 \<Longrightarrow> unat w < 2 ^ n \<Longrightarrow> clz_from n w < n \<and> 2 ^ (n - clz_from n w - 1) \<le> unat w"
proof (induction n)
  case 0 then show ?case by (simp add: unat_eq_0)
next
  case (Suc n)
  show ?case
  proof (cases "bit w n")
    case True then show ?thesis using bit_imp_le_unat[of w n] by simp
  next
    case False
    then have "unat w < 2 ^ n" using Suc.prems(2) by (rule not_bit_imp_unat_less)
    then show ?thesis using False Suc.IH[OF Suc.prems(1)] by (simp add: Suc_diff_le less_imp_le)
  qed
qed

lemma builtin_clz_less: "w \<noteq> 0 \<Longrightarrow> builtin_clz w < 32"
  using clz_from_lower[of w 32] unsigned_less[of w, where 'a=nat]
  by (simp add: builtin_clz_def)

lemma builtin_clz_upper: "unat w < 2 ^ (32 - builtin_clz w)"
  using clz_from_upper[of w 32] unsigned_less[of w, where 'a=nat]
  by (simp add: builtin_clz_def)

lemma builtin_clz_lower: "w \<noteq> 0 \<Longrightarrow> 2 ^ (32 - builtin_clz w - 1) \<le> unat w"
  using clz_from_lower[of w 32] unsigned_less[of w, where 'a=nat]
  by (simp add: builtin_clz_def)

lemma unat_size_value:
  "sz \<noteq> 0 \<Longrightarrow> unat (drop_bit DynPoolMinMultiPoolMemNodeSizeBits (sz - 1 :: u32)) = (unat sz - 1) div 512"
proof -
  assume nz: "sz \<noteq> 0"
  have "unat (drop_bit 9 (sz - 1)) = drop_bit 9 (unat (sz - 1))"
    by (rule unat_drop_bit_eq)
  also have "\<dots> = unat (sz - 1) div 2 ^ 9"
    by (rule drop_bit_eq_div)
  also have "\<dots> = (unat sz - 1) div 512"
    using nz by (simp add: unat_minus_one)
  finally show ?thesis
    by (simp add: DynPoolMinMultiPoolMemNodeSizeBits_def)
qed

lemma unat_find_multipool_index:
  "unat (find_multipool_index_for_size sz) =
     (let v = drop_bit DynPoolMinMultiPoolMemNodeSizeBits (sz - 1)
      in if v = 0 then 0 else 32 - builtin_clz v)"
proof (cases "drop_bit DynPoolMinMultiPoolMemNodeSizeBits (sz - 1) = 0")
  case True
  then show ?thesis by (simp add: find_multipool_index_for_size_def)
next
  case False
  let ?v = "drop_bit DynPoolMinMultiPoolMemNodeSizeBits (sz - 1)"
  have c: "builtin_clz ?v < 32" using False by (rule builtin_clz_less)
  have "unat (32 - of_nat (builtin_clz ?v) :: u32) = 32 - builtin_clz ?v"
    using c by (simp add: unat_sub word_le_nat_alt unat_of_nat)
  then show ?thesis using False
    by (simp add: find_multipool_index_for_size_def int32bitcount_def Let_def)
qed

lemma index_small: "sz \<noteq> 0 \<Longrightarrow> unat sz \<le> 512 \<Longrightarrow> find_multipool_index_for_size sz = 0"
proof -
  assume nz: "sz \<noteq> 0" and le: "unat sz \<le> 512"
  have "unat (drop_bit DynPoolMinMultiPoolMemNodeSizeBits (sz - 1)) = 0"
    using le by (simp add: unat_size_value[OF nz])
  then have "drop_bit DynPoolMinMultiPoolMemNodeSizeBits (sz - 1) = 0"
    by (simp add: unat_eq_0)
  then show ?thesis by (simp add: find_multipool_index_for_size_def)
qed

lemma index_large:
  assumes "512 < unat sz"
  shows "0 < unat (find_multipool_index_for_size sz)"
    and "512 * 2 ^ (unat (find_multipool_index_for_size sz) - 1) < unat sz"
    and "unat sz \<le> 512 * 2 ^ unat (find_multipool_index_for_size sz)"
proof -
  let ?v = "drop_bit DynPoolMinMultiPoolMemNodeSizeBits (sz - 1)"
  let ?k = "32 - builtin_clz ?v"
  from assms have nz: "sz \<noteq> 0" by auto
  have uv: "unat ?v = (unat sz - 1) div 512" using nz by (rule unat_size_value)
  with assms have "unat ?v \<noteq> 0" by simp
  then have vnz: "?v \<noteq> 0" by auto
  have k: "unat (find_multipool_index_for_size sz) = ?k"
    using vnz by (simp add: unat_find_multipool_index Let_def)
  have kpos: "0 < ?k" using builtin_clz_less[OF vnz] by simp
  have up: "(unat sz - 1) div 512 < 2 ^ ?k" using builtin_clz_upper[of ?v] uv by simp
  have lo: "2 ^ (?k - 1) \<le> (unat sz - 1) div 512" using builtin_clz_lower[OF vnz] uv by simp
  show "0 < unat (find_multipool_index_for_size sz)" using k kpos by simp
  from lo have "512 * 2 ^ (?k - 1) \<le> unat sz - 1"
    by (metis (no_types, lifting) div_times_less_eq_dividend le_trans mult.commute mult_le_mono2)
  then show "512 * 2 ^ (unat (find_multipool_index_for_size sz) - 1) < unat sz"
    using k assms by simp
  from up have "unat sz - 1 < 512 * 2 ^ ?k"
    by (simp add: less_mult_imp_div_less mult.commute)
  then show "unat sz \<le> 512 * 2 ^ unat (find_multipool_index_for_size sz)"
    using k by simp
qed

lemma ceil_log2_between:
  fixes k n :: nat
  assumes "0 < k" and "512 * 2 ^ (k - 1) < n" and "n \<le> 512 * 2 ^ k"
  shows "nat \<lceil>log 2 (real n / 512)\<rceil> = k"
proof -
  let ?x = "real n / 512"
  from assms(2) have "0 < n" by simp
  then have xpos: "0 < ?x" by simp
  have "real (512 * 2 ^ (k - 1)) < real n" using assms(2) by (simp only: of_nat_less_iff)
  then have lo: "2 powr real (k - 1) < ?x"
    by (simp add: powr_realpow)
  have "real n \<le> real (512 * 2 ^ k)" using assms(3) by (simp only: of_nat_le_iff)
  then have "?x \<le> 2 ^ k" by simp
  then have hi: "?x \<le> 2 powr real (k - 1 + 1)" using assms(1) by (simp add: powr_realpow)
  have "\<lceil>log 2 ?x\<rceil> = int (k - 1) + 1"
    using lo hi xpos by (simp only: ceiling_log_eq_powr_iff[of ?x 2 "k - 1"])
  then show ?thesis using assms(1) by simp
qed

lemma index_ceil_log2:
  assumes "512 < unat sz"
  shows "unat (find_multipool_index_for_size sz) = nat \<lceil>log 2 (real (unat sz) / 512)\<rceil>"
  using ceil_log2_between[OF index_large[OF assms]] by (rule sym)

lemma clz_from_numeral:
  "clz_from (numeral n) w =
     (if bit w (pred_numeral n) then 0 else Suc (clz_from (pred_numeral n) w))"
  by (simp add: numeral_eq_Suc)

lemmas index_eval =
  find_multipool_index_for_size_def DynPoolMinMultiPoolMemNodeSizeBits_def
  int32bitcount_def builtin_clz_def clz_from_numeral

subsection \<open>The index is the rounded-up binary logarithm\<close>

text \<open>
  Claim C1. For every requested size \<open>S\<close> with \<open>1 \<le> S \<le> 4194304\<close>,
  \<open>find_multipool_index_for_size S\<close> is \<open>0\<close> when \<open>S \<le> 512\<close> and otherwise
  \<open>\<lceil>log\<^sub>2 (S / 512)\<rceil>\<close>; at the boundaries of the minimum class size the index of
  \<open>512\<close> is \<open>0\<close>, of \<open>513\<close> is \<open>1\<close>, of \<open>1024\<close> is \<open>1\<close> and of \<open>1025\<close> is \<open>2\<close>.
\<close>

theorem find_multipool_index_for_size_ceil_log2:
  "(\<forall>S::u32. 1 \<le> unat S \<and> unat S \<le> 4194304 \<longrightarrow>
      unat (find_multipool_index_for_size S) =
        (if unat S \<le> 512 then 0 else nat \<lceil>log 2 (real (unat S) / 512)\<rceil>))
   \<and> find_multipool_index_for_size 512 = 0
   \<and> find_multipool_index_for_size 513 = 1
   \<and> find_multipool_index_for_size 1024 = 1
   \<and> find_multipool_index_for_size 1025 = 2"
proof -
  have "unat (find_multipool_index_for_size S) =
        (if unat S \<le> 512 then 0 else nat \<lceil>log 2 (real (unat S) / 512)\<rceil>)"
    if "1 \<le> unat S" for S :: u32
  proof (cases "unat S \<le> 512")
    case True
    from that have "S \<noteq> 0" by auto
    then show ?thesis using True by (simp add: index_small)
  next
    case False
    then show ?thesis by (simp add: index_ceil_log2)
  qed
  moreover have "find_multipool_index_for_size 512 = 0"
    by (simp add: index_eval)
  moreover have "find_multipool_index_for_size 513 = 1"
    by (simp add: index_eval)
  moreover have "find_multipool_index_for_size 1024 = 1"
    by (simp add: index_eval)
  moreover have "find_multipool_index_for_size 1025 = 2"
    by (simp add: index_eval)
  ultimately show ?thesis by blast
qed

theorem find_multipool_index_for_size_ceil_log2_witness:
  "1 \<le> unat (4096::u32) \<and> unat (4096::u32) \<le> 4194304
   \<and> unat (find_multipool_index_for_size 4096) = 3
   \<and> nat \<lceil>log 2 (real (unat (4096::u32)) / 512)\<rceil> = 3"
proof -
  have i: "find_multipool_index_for_size 4096 = 3"
    by (simp add: index_eval)
  from find_multipool_index_for_size_ceil_log2
  have "1 \<le> unat (4096::u32) \<and> unat (4096::u32) \<le> 4194304 \<longrightarrow>
      unat (find_multipool_index_for_size 4096) =
        (if unat (4096::u32) \<le> 512 then 0
         else nat \<lceil>log 2 (real (unat (4096::u32)) / 512)\<rceil>)"
    by blast
  then show ?thesis using i by simp
qed

subsection \<open>Monotonicity\<close>

text \<open>
  Claim C4. For all \<^verbatim>\<open>uint32_t\<close> sizes \<open>S1\<close> and \<open>S2\<close> with \<open>0 < S1 < S2\<close>, the index of
  \<open>S1\<close> is at most the index of \<open>S2\<close>.
\<close>

theorem find_multipool_index_for_size_mono:
  "0 < S1 \<Longrightarrow> S1 < S2 \<Longrightarrow>
     find_multipool_index_for_size S1 \<le> find_multipool_index_for_size (S2::u32)"
proof -
  assume p: "0 < S1" and lt: "S1 < S2"
  let ?k1 = "unat (find_multipool_index_for_size S1)"
  let ?k2 = "unat (find_multipool_index_for_size S2)"
  from lt have ult: "unat S1 < unat S2" by (simp add: word_less_nat_alt)
  have "?k1 \<le> ?k2"
  proof (cases "unat S1 \<le> 512")
    case True
    from p have "S1 \<noteq> 0" by auto
    then show ?thesis using True by (simp add: index_small)
  next
    case False
    then have b1: "512 < unat S1" by simp
    with ult have b2: "512 < unat S2" by simp
    have "512 * 2 ^ (?k1 - 1) < unat S1" using b1 by (rule index_large(2))
    also have "\<dots> < unat S2" by (rule ult)
    also have "\<dots> \<le> 512 * 2 ^ ?k2" using b2 by (rule index_large(3))
    finally have "(2::nat) ^ (?k1 - 1) < 2 ^ ?k2" by simp
    then have "?k1 - 1 < ?k2" by simp
    then show ?thesis by simp
  qed
  then show ?thesis by (simp add: word_le_nat_alt)
qed

theorem find_multipool_index_for_size_mono_witness:
  "(0::u32) < 1024 \<and> (1024::u32) < 1025
   \<and> find_multipool_index_for_size 1024 \<le> find_multipool_index_for_size 1025"
  using find_multipool_index_for_size_mono[of 1024 1025] by simp

section \<open>Properties of the pools\<close>

subsection \<open>Reading the store after a write\<close>

lemma get_pool_nonzero: "get_pool s a = Some P \<Longrightarrow> a \<noteq> 0"
  by (auto simp: get_pool_def split: if_splits)

lemma get_node_nonzero: "get_node s a = Some P \<Longrightarrow> a \<noteq> 0"
  by (auto simp: get_node_def split: if_splits)

lemma get_zero [simp]:
  "get_pool s 0 = None" "get_node s 0 = None" "get_block s 0 = None" "get_multipool s 0 = None"
  by (simp_all add: get_pool_def get_node_def get_block_def get_multipool_def)

lemma count_unavailable_returned [simp]:
  "count_unavailable c (count_returned c P\<lparr>head := h\<rparr>) = P\<lparr>head := h\<rparr>"
  by (simp add: count_unavailable_def count_returned_def)

lemma get_multipool_nonzero: "get_multipool s a = Some M \<Longrightarrow> a \<noteq> 0"
  by (auto simp: get_multipool_def split: if_splits)

lemma get_pool_frame [simp]:
  "get_pool (s\<lparr>nodes := n\<rparr>) = get_pool s"
  "get_pool (s\<lparr>blocks := b\<rparr>) = get_pool s"
  "get_pool (s\<lparr>multipools := mp\<rparr>) = get_pool s"
  "get_pool (s\<lparr>global_multipool := g\<rparr>) = get_pool s"
  "get_pool (s\<lparr>malloc_results := r\<rparr>) = get_pool s"
  "get_pool (s\<lparr>cas_spurious := f\<rparr>) = get_pool s"
  by (simp_all add: get_pool_def fun_eq_iff)

lemma get_node_frame [simp]:
  "get_node (s\<lparr>blocks := b\<rparr>) = get_node s"
  "get_node (s\<lparr>mempools := m\<rparr>) = get_node s"
  "get_node (s\<lparr>multipools := mp\<rparr>) = get_node s"
  "get_node (s\<lparr>global_multipool := g\<rparr>) = get_node s"
  "get_node (s\<lparr>malloc_results := r\<rparr>) = get_node s"
  "get_node (s\<lparr>cas_spurious := f\<rparr>) = get_node s"
  by (simp_all add: get_node_def fun_eq_iff)

lemma get_block_frame [simp]:
  "get_block (s\<lparr>nodes := n\<rparr>) = get_block s"
  "get_block (s\<lparr>mempools := m\<rparr>) = get_block s"
  "get_block (s\<lparr>multipools := mp\<rparr>) = get_block s"
  "get_block (s\<lparr>global_multipool := g\<rparr>) = get_block s"
  "get_block (s\<lparr>malloc_results := r\<rparr>) = get_block s"
  "get_block (s\<lparr>cas_spurious := f\<rparr>) = get_block s"
  by (simp_all add: get_block_def fun_eq_iff)

lemma get_multipool_frame [simp]:
  "get_multipool (s\<lparr>nodes := n\<rparr>) = get_multipool s"
  "get_multipool (s\<lparr>blocks := b\<rparr>) = get_multipool s"
  "get_multipool (s\<lparr>mempools := m\<rparr>) = get_multipool s"
  "get_multipool (s\<lparr>global_multipool := g\<rparr>) = get_multipool s"
  "get_multipool (s\<lparr>malloc_results := r\<rparr>) = get_multipool s"
  "get_multipool (s\<lparr>cas_spurious := f\<rparr>) = get_multipool s"
  by (simp_all add: get_multipool_def fun_eq_iff)

lemma get_upd [simp]:
  "get_pool (s\<lparr>mempools := fmupd a P m\<rparr>) b =
     (if b = 0 then None else if a = b then Some P else get_pool (s\<lparr>mempools := m\<rparr>) b)"
  "get_node (s\<lparr>nodes := fmupd a nd n\<rparr>) b =
     (if b = 0 then None else if a = b then Some nd else get_node (s\<lparr>nodes := n\<rparr>) b)"
  "get_block (s\<lparr>blocks := fmupd a bl bs\<rparr>) b =
     (if b = 0 then None else if a = b then Some bl else get_block (s\<lparr>blocks := bs\<rparr>) b)"
  "get_multipool (s\<lparr>multipools := fmupd a M ms\<rparr>) b =
     (if b = 0 then None else if a = b then Some M
      else get_multipool (s\<lparr>multipools := ms\<rparr>) b)"
  by (simp_all add: get_pool_def get_node_def get_block_def get_multipool_def)

lemma get_same [simp]:
  "get_pool (s\<lparr>mempools := mempools t\<rparr>) = get_pool t"
  "get_node (s\<lparr>nodes := nodes t\<rparr>) = get_node t"
  "get_block (s\<lparr>blocks := blocks t\<rparr>) = get_block t"
  "get_multipool (s\<lparr>multipools := multipools t\<rparr>) = get_multipool t"
  by (simp_all add: get_pool_def get_node_def get_block_def get_multipool_def fun_eq_iff)

lemma get_drop [simp]:
  "get_pool (s\<lparr>mempools := fmdrop a m\<rparr>) b =
     (if a = b then None else get_pool (s\<lparr>mempools := m\<rparr>) b)"
  "get_node (s\<lparr>nodes := fmdrop a n\<rparr>) b =
     (if a = b then None else get_node (s\<lparr>nodes := n\<rparr>) b)"
  "get_block (s\<lparr>blocks := fmdrop a bs\<rparr>) b =
     (if a = b then None else get_block (s\<lparr>blocks := bs\<rparr>) b)"
  "get_multipool (s\<lparr>multipools := fmdrop a ms\<rparr>) b =
     (if a = b then None else get_multipool (s\<lparr>multipools := ms\<rparr>) b)"
  by (simp_all add: get_pool_def get_node_def get_block_def get_multipool_def)

lemma after_exchange_simps [simp]:
  "after_exchange [] = []"
  "after_exchange (True # fs) = after_exchange fs"
  "after_exchange (False # fs) = fs"
  by (simp_all add: after_exchange_def)

subsection \<open>What the operations compute\<close>

lemma alloc_poolable_mem_eq:
  assumes "get_pool s pool = Some P" and "NDEBUG c \<or> mem_size P \<noteq> 0"
  shows "alloc_poolable_mem c pool s =
     (case malloc_results s of
        [] \<Rightarrow> Inr (0, s)
      | n # r1 \<Rightarrow>
          if n = 0 then Inr (0, s\<lparr>malloc_results := r1\<rparr>)
          else case r1 of
                 [] \<Rightarrow> Inr (0, s\<lparr>nodes := fmdrop n (nodes s), malloc_results := []\<rparr>)
               | b # r2 \<Rightarrow>
                   if b = 0
                   then Inr (0, s\<lparr>nodes := fmdrop n (nodes s), malloc_results := r2\<rparr>)
                   else Inr (n, s\<lparr>nodes := fmupd n \<lparr>node_next = 0,
                                                    node_data = b + sizeof_ptrdiff_t,
                                                    node_pool = pool\<rparr> (nodes s),
                                  blocks := fmupd b \<lparr>owner = n,
                                     alloc_size = unat (mem_size P) + sizeof_ptrdiff_t\<rparr> (blocks s),
                                  malloc_results := r2\<rparr>))"
proof -
  from assms(1) have pz: "pool \<noteq> 0" by (rule get_pool_nonzero)
  from assms(1) pz have look: "fmlookup (mempools s) pool = Some P"
    by (simp add: get_pool_def)
  show ?thesis
    using assms(2) pz look
    by (auto simp: alloc_poolable_mem_def get_pool_def malloc_def set_node_def set_block_def
        free_node_def Let_def fmdrop_fmupd_same split: list.splits)
qed

lemma pool_mem_acquire_empty_eq:
  assumes "get_pool s pool = Some P" and "head P = 0" and "NDEBUG c \<or> mem_size P \<noteq> 0"
  shows "pool_mem_acquire c pool s =
    (case malloc_results s of
        [] \<Rightarrow> Inr (0, s)
      | n # r1 \<Rightarrow>
          if n = 0 then Inr (0, s\<lparr>malloc_results := r1\<rparr>)
          else case r1 of
                 [] \<Rightarrow> Inr (0, s\<lparr>nodes := fmdrop n (nodes s), malloc_results := []\<rparr>)
               | b # r2 \<Rightarrow>
                   if b = 0
                   then Inr (0, s\<lparr>nodes := fmdrop n (nodes s), malloc_results := r2\<rparr>)
                   else Inr (b + sizeof_ptrdiff_t,
                             s\<lparr>nodes := fmupd n \<lparr>node_next = 0,
                                                    node_data = b + sizeof_ptrdiff_t,
                                                    node_pool = pool\<rparr> (nodes s),
                                  blocks := fmupd b \<lparr>owner = n,
                                     alloc_size = unat (mem_size P) + sizeof_ptrdiff_t\<rparr> (blocks s),
                                  mempools := fmupd pool (count_alloc c P) (mempools s),
                                  malloc_results := r2\<rparr>))"
    (is "_ = ?rhs")
proof -
  from assms(1) have pz: "pool \<noteq> 0" by (rule get_pool_nonzero)
  from assms(1) pz have look: "fmlookup (mempools s) pool = Some P"
    by (simp add: get_pool_def)
  have upd: "fmupd pool P (mempools s) = mempools s"
    using look by (intro fmap_ext) auto
  have "pool_mem_acquire c pool s = pool_mem_try_alloc_data c pool s"
    using assms(1,2) pz by (simp add: pool_mem_acquire_def pool_mem_acquire_loop.simps)
  also have "\<dots> = ?rhs"
    using pz look upd
    by (auto simp: pool_mem_try_alloc_data_def alloc_poolable_mem_eq[OF assms(1,3)]
        track_pool_usage_allocs_def upd_pool_def get_pool_def get_node_def set_pool_def
        count_alloc_def
        split: list.splits)
  finally show ?thesis .
qed

lemma atomic_compare_exchange_head_eq:
  assumes "get_pool s pool = Some P"
  shows "atomic_compare_exchange_head pool (head P) desired s =
     (case cas_spurious s of
        [] \<Rightarrow> Inr (True, s\<lparr>mempools := fmupd pool (P\<lparr>head := desired\<rparr>) (mempools s)\<rparr>)
      | f # rest \<Rightarrow>
          if f then Inr (False, s\<lparr>cas_spurious := rest\<rparr>)
          else Inr (True, s\<lparr>mempools := fmupd pool (P\<lparr>head := desired\<rparr>) (mempools s),
                            cas_spurious := rest\<rparr>))"
  using assms by (simp add: atomic_compare_exchange_head_def set_pool_def split: list.splits)

lemma track_pool_usage_memnode_unavailable_eq:
  assumes "get_pool s pool = Some P"
  shows "track_pool_usage_memnode_unavailable c pool s =
     Inr (s\<lparr>mempools := fmupd pool (count_unavailable c P) (mempools s)\<rparr>)"
proof -
  from assms have "fmlookup (mempools s) pool = Some P"
    by (simp add: get_pool_def split: if_splits)
  then have "fmupd pool P (mempools s) = mempools s"
    by (intro fmap_ext) auto
  then show ?thesis using assms
    by (simp add: track_pool_usage_memnode_unavailable_def upd_pool_def set_pool_def
        count_unavailable_def)
qed

lemma track_pool_usage_returned_eq:
  assumes "get_pool s pool = Some P"
  shows "track_pool_usage_returned c pool s =
     Inr (s\<lparr>mempools := fmupd pool (count_returned c P) (mempools s)\<rparr>)"
proof -
  from assms have "fmlookup (mempools s) pool = Some P"
    by (simp add: get_pool_def split: if_splits)
  then have "fmupd pool P (mempools s) = mempools s"
    by (intro fmap_ext) auto
  then show ?thesis using assms
    by (simp add: track_pool_usage_returned_def upd_pool_def set_pool_def
        count_returned_def)
qed

lemma pool_mem_acquire_loop_hit:
  assumes "get_pool s pool = Some P" and "head P \<noteq> 0" and "get_node s (head P) = Some nd"
  shows "pool_mem_acquire_loop c pool s =
     Inr (node_data nd,
          s\<lparr>mempools := fmupd pool (count_unavailable c (P\<lparr>head := node_next nd\<rparr>)) (mempools s),
            cas_spurious := after_exchange (cas_spurious s)\<rparr>)"
  using assms
proof (induction fs \<equiv> "cas_spurious s" arbitrary: s)
  case Nil
  from Nil(2) have pz: "pool \<noteq> 0" by (rule get_pool_nonzero)
  let ?s1 = "s\<lparr>mempools := fmupd pool (P\<lparr>head := node_next nd\<rparr>) (mempools s)\<rparr>"
  have gp: "get_pool ?s1 pool = Some (P\<lparr>head := node_next nd\<rparr>)" using pz by simp
  show ?case
    using Nil(1)[symmetric] Nil(2-4) pz
    by (subst pool_mem_acquire_loop.simps)
      (simp add: atomic_compare_exchange_head_eq track_pool_usage_memnode_unavailable_eq[OF gp])
next
  case (Cons f fs)
  from Cons(3) have pz: "pool \<noteq> 0" by (rule get_pool_nonzero)
  show ?case
  proof (cases f)
    case False
    let ?s1 = "s\<lparr>mempools := fmupd pool (P\<lparr>head := node_next nd\<rparr>) (mempools s),
                  cas_spurious := fs\<rparr>"
    have gp: "get_pool ?s1 pool = Some (P\<lparr>head := node_next nd\<rparr>)" using pz by simp
    show ?thesis
      using Cons(2)[symmetric] Cons(3-5) pz False
      by (subst pool_mem_acquire_loop.simps)
        (simp add: atomic_compare_exchange_head_eq track_pool_usage_memnode_unavailable_eq[OF gp])
  next
    case True
    let ?s1 = "s\<lparr>cas_spurious := fs\<rparr>"
    have step: "pool_mem_acquire_loop c pool s = pool_mem_acquire_loop c pool ?s1"
      using Cons(2)[symmetric] Cons(3-5) True
      by (subst pool_mem_acquire_loop.simps) (simp add: atomic_compare_exchange_head_eq)
    have "pool_mem_acquire_loop c pool ?s1 =
      Inr (node_data nd,
          ?s1\<lparr>mempools := fmupd pool (count_unavailable c (P\<lparr>head := node_next nd\<rparr>)) (mempools ?s1),
            cas_spurious := after_exchange (cas_spurious ?s1)\<rparr>)"
      using Cons(3-5) by (intro Cons(1)) simp_all
    with step show ?thesis
      using Cons(2)[symmetric] True by simp
  qed
qed

lemma pool_mem_return_loop_eq:
  assumes "get_pool s pool = Some P" and "get_node s new_head = Some nd"
  shows "pool_mem_return_loop c pool new_head s =
     Inr (s\<lparr>nodes := fmupd new_head (nd\<lparr>node_next := head P\<rparr>) (nodes s),
            mempools := fmupd pool (count_returned c (P\<lparr>head := new_head\<rparr>)) (mempools s),
            cas_spurious := after_exchange (cas_spurious s)\<rparr>)"
  using assms
proof (induction fs \<equiv> "cas_spurious s" arbitrary: s nd)
  case Nil
  from Nil(2) have pz: "pool \<noteq> 0" by (rule get_pool_nonzero)
  let ?s0 = "s\<lparr>nodes := fmupd new_head (nd\<lparr>node_next := head P\<rparr>) (nodes s)\<rparr>"
  have g0: "get_pool ?s0 pool = Some P" using Nil(2) by simp
  let ?s1 = "?s0\<lparr>mempools := fmupd pool (P\<lparr>head := new_head\<rparr>) (mempools ?s0)\<rparr>"
  have gp: "get_pool ?s1 pool = Some (P\<lparr>head := new_head\<rparr>)" using pz by simp
  have cas: "atomic_compare_exchange_head pool (head P) new_head ?s0 = Inr (True, ?s1)"
    using Nil(1)[symmetric] by (simp add: atomic_compare_exchange_head_eq[OF g0])
  have "pool_mem_return_loop c pool new_head s = track_pool_usage_returned c pool ?s1"
    using Nil(2-3) cas
    by (subst pool_mem_return_loop.simps) (simp add: set_node_def)
  also have "\<dots> = Inr (?s1\<lparr>mempools := fmupd pool (count_returned c (P\<lparr>head := new_head\<rparr>)) (mempools ?s1)\<rparr>)"
    by (rule track_pool_usage_returned_eq[OF gp])
  finally show ?case
    using Nil(1)[symmetric] by simp
next
  case (Cons f fs)
  from Cons(3) have pz: "pool \<noteq> 0" by (rule get_pool_nonzero)
  from Cons(4) have nz: "new_head \<noteq> 0" by (rule get_node_nonzero)
  let ?nd = "nd\<lparr>node_next := head P\<rparr>"
  let ?s0 = "s\<lparr>nodes := fmupd new_head ?nd (nodes s)\<rparr>"
  have g0: "get_pool ?s0 pool = Some P" using Cons(3) by simp
  have c0: "cas_spurious ?s0 = f # fs" using Cons(2) by simp
  show ?case
  proof (cases f)
    case False
    let ?s1 = "?s0\<lparr>mempools := fmupd pool (P\<lparr>head := new_head\<rparr>) (mempools ?s0),
                  cas_spurious := fs\<rparr>"
    have gp: "get_pool ?s1 pool = Some (P\<lparr>head := new_head\<rparr>)" using pz by simp
    have cas: "atomic_compare_exchange_head pool (head P) new_head ?s0 = Inr (True, ?s1)"
      using c0 False by (simp add: atomic_compare_exchange_head_eq[OF g0])
    have "pool_mem_return_loop c pool new_head s = track_pool_usage_returned c pool ?s1"
      using Cons(3-4) cas
      by (subst pool_mem_return_loop.simps) (simp add: set_node_def)
    also have "\<dots> = Inr (?s1\<lparr>mempools := fmupd pool (count_returned c (P\<lparr>head := new_head\<rparr>)) (mempools ?s1)\<rparr>)"
      by (rule track_pool_usage_returned_eq[OF gp])
    finally show ?thesis
      using Cons(2)[symmetric] False by simp
  next
    case True
    let ?s1 = "?s0\<lparr>cas_spurious := fs\<rparr>"
    have cas: "atomic_compare_exchange_head pool (head P) new_head ?s0 = Inr (False, ?s1)"
      using c0 True by (simp add: atomic_compare_exchange_head_eq[OF g0])
    have step: "pool_mem_return_loop c pool new_head s = pool_mem_return_loop c pool new_head ?s1"
      using Cons(3-4) cas
      by (subst pool_mem_return_loop.simps) (simp add: set_node_def)
    have "pool_mem_return_loop c pool new_head ?s1 =
      Inr (?s1\<lparr>nodes := fmupd new_head (?nd\<lparr>node_next := head P\<rparr>) (nodes ?s1),
            mempools := fmupd pool (count_returned c (P\<lparr>head := new_head\<rparr>)) (mempools ?s1),
            cas_spurious := after_exchange (cas_spurious ?s1)\<rparr>)"
      using Cons(3-4) nz by (intro Cons(1)) simp_all
    with step show ?thesis
      using Cons(2)[symmetric] True by simp
  qed
qed

lemma block_ofE:
  assumes "block_of s pool p"
  obtains b nd P where "sizeof_ptrdiff_t \<le> p" "get_block s (p - sizeof_ptrdiff_t) = Some b"
    "get_node s (owner b) = Some nd" "node_data nd = p" "node_pool nd = pool"
    "get_pool s pool = Some P"
  using assms by (auto simp: block_of_def split: option.splits)

lemma fmupd_same: "fmlookup m a = Some v \<Longrightarrow> fmupd a v m = m"
  by (intro fmap_ext) auto

lemma get_pool_lookup: "get_pool s a = Some P \<Longrightarrow> fmlookup (mempools s) a = Some P"
  by (simp add: get_pool_def split: if_splits)

lemma pool_mem_return_block:
  assumes "get_block s (p - sizeof_ptrdiff_t) = Some b" and "sizeof_ptrdiff_t \<le> p"
    and "get_node s (owner b) = Some nd" and "get_pool s (node_pool nd) = Some P"
  shows "pool_mem_return c p s =
     Inr (s\<lparr>nodes := fmupd (owner b) (nd\<lparr>node_next := head P\<rparr>) (nodes s),
            mempools := fmupd (node_pool nd) (count_returned c (P\<lparr>head := owner b\<rparr>)) (mempools s),
            cas_spurious := after_exchange (cas_spurious s)\<rparr>)"
proof -
  from assms(2) have "p \<noteq> 0" by (simp add: sizeof_ptrdiff_t_def)
  moreover have "get_memnode_in_data c p s = Inr (owner b)"
    using assms(1,2) \<open>p \<noteq> 0\<close> by (simp add: get_memnode_in_data_def)
  ultimately show ?thesis
    using assms(3) by (simp add: pool_mem_return_def pool_mem_return_loop_eq[OF assms(4,3)])
qed

lemma block_of_roundtrip:
  assumes "block_of s pool p"
  shows "\<exists>s1 s2. pool_mem_return c p s = Inr s1 \<and> pool_mem_acquire c pool s1 = Inr (p, s2)
     \<and> malloc_results s1 = malloc_results s \<and> malloc_results s2 = malloc_results s
     \<and> get_memnode_in_data c p s2 = get_memnode_in_data c p s
     \<and> blocks s2 = blocks s \<and> mempools s2 = mempools s"
proof -
  from assms obtain b nd P where p8: "sizeof_ptrdiff_t \<le> p"
    and gb: "get_block s (p - sizeof_ptrdiff_t) = Some b"
    and gn: "get_node s (owner b) = Some nd" and d: "node_data nd = p"
    and np: "node_pool nd = pool" and gp: "get_pool s pool = Some P"
    by (rule block_ofE)
  let ?n = "owner b"
  let ?nd = "nd\<lparr>node_next := head P\<rparr>"
  let ?P1 = "count_returned c (P\<lparr>head := ?n\<rparr>)"
  let ?s1 = "s\<lparr>nodes := fmupd ?n ?nd (nodes s),
              mempools := fmupd pool ?P1 (mempools s),
              cas_spurious := after_exchange (cas_spurious s)\<rparr>"
  from gn have nz: "?n \<noteq> 0" by (rule get_node_nonzero)
  from gp have pz: "pool \<noteq> 0" by (rule get_pool_nonzero)
  have ret: "pool_mem_return c p s = Inr ?s1"
    using pool_mem_return_block[OF gb p8 gn, of P c] gp np by simp
  have g1: "get_pool ?s1 pool = Some ?P1" using pz by simp
  have h1: "head ?P1 = ?n" by (simp add: count_returned_def)
  have n1: "get_node ?s1 (head ?P1) = Some ?nd" using nz h1 by simp
  have h1z: "head ?P1 \<noteq> 0" using nz h1 by simp
  let ?s2 = "?s1\<lparr>mempools := fmupd pool (count_unavailable c (?P1\<lparr>head := node_next ?nd\<rparr>)) (mempools ?s1),
                 cas_spurious := after_exchange (cas_spurious ?s1)\<rparr>"
  have acq: "pool_mem_acquire c pool ?s1 = Inr (p, ?s2)"
    using pool_mem_acquire_loop_hit[OF g1 h1z n1, of c] pz d
    by (simp add: pool_mem_acquire_def)
  have mp: "mempools ?s2 = mempools s"
    using fmupd_same[OF get_pool_lookup[OF gp]] by simp
  have "get_memnode_in_data c p ?s2 = get_memnode_in_data c p s"
    by (simp add: get_memnode_in_data_def)
  with ret acq mp show ?thesis
    by (intro exI[of _ ?s1] exI[of _ ?s2]) simp
qed

lemma pool_mem_acquire_block_of:
  assumes inv: "store_inv s0" and acq: "pool_mem_acquire c pool s0 = Inr (p, s)" and "p \<noteq> 0"
  shows "block_of s pool p"
proof -
  from acq obtain P where gp: "get_pool s0 pool = Some P"
    by (subst (asm) pool_mem_acquire_def, subst (asm) pool_mem_acquire_loop.simps)
       (auto split: if_splits option.splits)
  then have pz: "pool \<noteq> 0" by (rule get_pool_nonzero)
  show ?thesis
  proof (cases "head P = 0")
    case True
    have ok: "NDEBUG c \<or> mem_size P \<noteq> 0"
    proof (rule ccontr)
      assume "\<not> (NDEBUG c \<or> mem_size P \<noteq> 0)"
      then have "pool_mem_acquire c pool s0 = Inl AssertionFailed"
        using gp True pz
        by (simp add: pool_mem_acquire_def pool_mem_acquire_loop.simps
            pool_mem_try_alloc_data_def alloc_poolable_mem_def)
      with acq show False by simp
    qed
    from acq \<open>p \<noteq> 0\<close> pz show ?thesis
      unfolding pool_mem_acquire_empty_eq[OF gp True ok]
      by (auto simp: block_of_def sizeof_ptrdiff_t_def split: list.splits if_splits)
  next
    case False
    from acq gp False obtain nd where gn: "get_node s0 (head P) = Some nd"
      by (subst (asm) pool_mem_acquire_def, subst (asm) pool_mem_acquire_loop.simps)
         (auto split: if_splits option.splits)
    from inv gp have "pool_wf s0 pool P"
      by (simp add: store_inv_def)
    with False gn have np: "node_pool nd = pool"
      by (simp add: pool_wf_def)
    from inv gn have wf: "node_wf s0 (head P) nd"
      by (simp add: store_inv_def)
    from acq have p: "p = node_data nd"
      and s: "s = s0\<lparr>mempools := fmupd pool (count_unavailable c (P\<lparr>head := node_next nd\<rparr>)) (mempools s0),
            cas_spurious := after_exchange (cas_spurious s0)\<rparr>"
      using pool_mem_acquire_loop_hit[OF gp False gn, of c] pz
      by (simp_all add: pool_mem_acquire_def)
    from wf obtain b where "get_block s0 (node_data nd - sizeof_ptrdiff_t) = Some b"
      and "owner b = head P" and "sizeof_ptrdiff_t \<le> node_data nd"
      by (auto simp: node_wf_def)
    then show ?thesis
      using gn np pz by (simp add: block_of_def p s)
  qed
qed

subsection \<open>Construction of a multipool\<close>

lemma alloc_mem_pool_eq:
  "alloc_mem_pool sz s =
     (case malloc_results s of
        [] \<Rightarrow> (0, s)
      | a # r \<Rightarrow>
          if a = 0 then (0, s\<lparr>malloc_results := r\<rparr>)
          else (a, s\<lparr>mempools := fmupd a (new_pool sz) (mempools s), malloc_results := r\<rparr>))"
  by (simp add: alloc_mem_pool_def malloc_def set_pool_def new_pool_def split: list.splits)

lemma set_pools_entry_eq:
  assumes "get_multipool s mp = Some M" and "i < length (pools M)"
  shows "set_pools_entry mp i pool s =
     Inr (s\<lparr>multipools := fmupd mp (M\<lparr>pools := (pools M)[i := pool]\<rparr>) (multipools s)\<rparr>)"
  using assms by (simp add: set_pools_entry_def set_multipool_def)

lemma multipool_create_loop_result:
  assumes "get_multipool s mp = Some M"
    and "length (pools M) = MULTIPOOL_ENTRY_COUNT"
    and "i + length rs = MULTIPOOL_ENTRY_COUNT"
    and "malloc_results s = rs @ rest"
    and "distinct (filter (\<lambda>a. a \<noteq> 0) rs)"
  shows "\<exists>s'. multipool_create_loop mp i s = Inr s'
     \<and> get_multipool s' mp = Some (M\<lparr>pools := take i (pools M) @ rs\<rparr>)
     \<and> malloc_results s' = rest
     \<and> (\<forall>j<length rs. rs ! j \<noteq> 0 \<longrightarrow>
           get_pool s' (rs ! j) = Some (new_pool (class_size (i + j))))
     \<and> (\<forall>a. a \<notin> set rs \<longrightarrow> get_pool s' a = get_pool s a)
     \<and> (\<forall>a. a \<noteq> mp \<longrightarrow> get_multipool s' a = get_multipool s a)
     \<and> nodes s' = nodes s \<and> blocks s' = blocks s
     \<and> global_multipool s' = global_multipool s \<and> cas_spurious s' = cas_spurious s"
  using assms
proof (induction rs arbitrary: i s M)
  case Nil
  then show ?case
    by (subst multipool_create_loop.simps) simp
next
  case (Cons r rs)
  from Cons.prems(1) have mz: "mp \<noteq> 0" by (rule get_multipool_nonzero)
  from Cons.prems(2,3) have il: "i < length (pools M)" and i14: "i < MULTIPOOL_ENTRY_COUNT"
    by simp_all
  let ?M = "M\<lparr>pools := (pools M)[i := r]\<rparr>"
  let ?s1 = "if r = 0 then s\<lparr>malloc_results := rs @ rest\<rparr>
             else s\<lparr>mempools := fmupd r (new_pool (class_size i)) (mempools s),
                    malloc_results := rs @ rest\<rparr>"
  let ?s2 = "?s1\<lparr>multipools := fmupd mp ?M (multipools ?s1)\<rparr>"
  have al: "alloc_mem_pool (class_size i) s = (r, ?s1)"
    using Cons.prems(4) by (simp add: alloc_mem_pool_eq)
  have g1: "get_multipool ?s1 mp = Some M" using Cons.prems(1) by simp
  have il1: "i < length (pools M)" by (rule il)
  have sp: "set_pools_entry mp i r ?s1 = Inr ?s2"
    by (rule set_pools_entry_eq[OF g1 il1])
  have step: "multipool_create_loop mp i s = multipool_create_loop mp (i + 1) ?s2"
    using i14 al sp
    by (subst multipool_create_loop.simps) (simp add: class_size_def)
  have g2: "get_multipool ?s2 mp = Some ?M" using mz by simp
  have l2: "length (pools ?M) = MULTIPOOL_ENTRY_COUNT" using Cons.prems(2) by simp
  have i2: "(i + 1) + length rs = MULTIPOOL_ENTRY_COUNT" using Cons.prems(3) by simp
  have m2: "malloc_results ?s2 = rs @ rest" by simp
  have d2: "distinct (filter (\<lambda>a. a \<noteq> 0) rs)" using Cons.prems(5) by (simp split: if_splits)
  from Cons.IH[OF g2 l2 i2 m2 d2] obtain s' where
    r1: "multipool_create_loop mp (i + 1) ?s2 = Inr s'"
    and r2: "get_multipool s' mp = Some (?M\<lparr>pools := take (i + 1) (pools ?M) @ rs\<rparr>)"
    and r3: "malloc_results s' = rest"
    and r4: "\<forall>j<length rs. rs ! j \<noteq> 0 \<longrightarrow>
           get_pool s' (rs ! j) = Some (new_pool (class_size (i + 1 + j)))"
    and r5: "\<forall>a. a \<notin> set rs \<longrightarrow> get_pool s' a = get_pool ?s2 a"
    and r6: "\<forall>a. a \<noteq> mp \<longrightarrow> get_multipool s' a = get_multipool ?s2 a"
    and r7: "nodes s' = nodes ?s2" "blocks s' = blocks ?s2"
       "global_multipool s' = global_multipool ?s2" "cas_spurious s' = cas_spurious ?s2"
    by blast
  have tk: "take (i + 1) (pools ?M) @ rs = take i (pools M) @ r # rs"
    using il by (simp add: take_Suc_conv_app_nth)
  have c2: "get_multipool s' mp = Some (M\<lparr>pools := take i (pools M) @ r # rs\<rparr>)"
    using r2 tk by simp
  have c4: "\<forall>j<length (r # rs). (r # rs) ! j \<noteq> 0 \<longrightarrow>
           get_pool s' ((r # rs) ! j) = Some (new_pool (class_size (i + j)))"
  proof (intro allI impI)
    fix j assume j: "j < length (r # rs)" and nz: "(r # rs) ! j \<noteq> 0"
    show "get_pool s' ((r # rs) ! j) = Some (new_pool (class_size (i + j)))"
    proof (cases j)
      case 0
      with nz have rz: "r \<noteq> 0" by simp
      with Cons.prems(5) have "r \<notin> set rs" by simp
      with r5 have "get_pool s' r = get_pool ?s2 r" by blast
      also have "\<dots> = Some (new_pool (class_size i))" using rz by simp
      finally show ?thesis using 0 by simp
    next
      case (Suc k)
      with j nz r4 show ?thesis by simp
    qed
  qed
  have c5: "\<forall>a. a \<notin> set (r # rs) \<longrightarrow> get_pool s' a = get_pool s a"
    using r5 by simp
  have c6: "\<forall>a. a \<noteq> mp \<longrightarrow> get_multipool s' a = get_multipool s a"
    using r6 by simp
  have c7: "nodes s' = nodes s" "blocks s' = blocks s"
       "global_multipool s' = global_multipool s" "cas_spurious s' = cas_spurious s"
    using r7 by simp_all
  from step r1 c2 r3 c4 c5 c6 c7 show ?case
    by (intro exI[of _ s']) simp
qed

lemma multipool_create_result:
  assumes "malloc_results s = mp # rs @ rest" and "mp \<noteq> 0"
    and "length rs = MULTIPOOL_ENTRY_COUNT"
    and "distinct (filter (\<lambda>a. a \<noteq> 0) rs)"
  shows "\<exists>s'. multipool_create s = Inr (mp, s')
     \<and> get_multipool s' mp = Some \<lparr>pools = rs\<rparr>
     \<and> malloc_results s' = rest
     \<and> (\<forall>j<MULTIPOOL_ENTRY_COUNT. rs ! j \<noteq> 0 \<longrightarrow>
           get_pool s' (rs ! j) = Some (new_pool (class_size j)))
     \<and> (\<forall>a. a \<notin> set rs \<longrightarrow> get_pool s' a = get_pool s a)
     \<and> (\<forall>a. a \<noteq> mp \<longrightarrow> get_multipool s' a = get_multipool s a)
     \<and> nodes s' = nodes s \<and> blocks s' = blocks s
     \<and> global_multipool s' = global_multipool s \<and> cas_spurious s' = cas_spurious s"
proof -
  let ?M = "\<lparr>pools = replicate MULTIPOOL_ENTRY_COUNT 0\<rparr>"
  let ?s1 = "s\<lparr>malloc_results := rs @ rest, multipools := fmupd mp ?M (multipools s)\<rparr>"
  have m: "malloc s = (mp, s\<lparr>malloc_results := rs @ rest\<rparr>)"
    using assms(1) by (simp add: malloc_def)
  have g: "get_multipool ?s1 mp = Some ?M" using assms(2) by simp
  have l: "length (pools ?M) = MULTIPOOL_ENTRY_COUNT" by simp
  have i: "0 + length rs = MULTIPOOL_ENTRY_COUNT" using assms(3) by simp
  have r: "malloc_results ?s1 = rs @ rest" by simp
  from multipool_create_loop_result[OF g l i r assms(4)] obtain s' where
    r1: "multipool_create_loop mp 0 ?s1 = Inr s'"
    and r2: "get_multipool s' mp = Some (?M\<lparr>pools := take 0 (pools ?M) @ rs\<rparr>)"
    and r3: "malloc_results s' = rest"
    and r4: "\<forall>j<length rs. rs ! j \<noteq> 0 \<longrightarrow>
           get_pool s' (rs ! j) = Some (new_pool (class_size (0 + j)))"
    and r5: "\<forall>a. a \<notin> set rs \<longrightarrow> get_pool s' a = get_pool ?s1 a"
    and r6: "\<forall>a. a \<noteq> mp \<longrightarrow> get_multipool s' a = get_multipool ?s1 a"
    and r7: "nodes s' = nodes ?s1" "blocks s' = blocks ?s1"
       "global_multipool s' = global_multipool ?s1" "cas_spurious s' = cas_spurious ?s1"
    by blast
  have c: "multipool_create s = Inr (mp, s')"
    using m r1 assms(2) by (simp add: multipool_create_def set_multipool_def)
  from c r2 r3 r4 r5 r6 r7 assms(3) show ?thesis
    by (intro exI[of _ s']) simp
qed

lemma class_size_eq: "class_size i = push_bit i 512"
proof -
  have "class_size i = 2 ^ 9 * 2 ^ i"
    by (simp only: class_size_def DynPoolMinMultiPoolMemNodeSizeBits_def push_bit_eq_mult
        power_add mult_1)
  also have "\<dots> = push_bit i 512"
    by (simp add: push_bit_eq_mult)
  finally show ?thesis .
qed

lemma unat_class_size: "i < MULTIPOOL_ENTRY_COUNT \<Longrightarrow> unat (class_size i) = 512 * 2 ^ i"
proof -
  assume "i < MULTIPOOL_ENTRY_COUNT"
  then have i: "i \<le> 13" by (simp add: MULTIPOOL_ENTRY_COUNT_def)
  then have "(2::nat) ^ i \<le> 2 ^ 13" by (intro power_increasing) simp_all
  then have lt: "512 * (2::nat) ^ i < 2 ^ 32" by simp
  have "unat (class_size i) = unat (push_bit i (512::u32))" by (simp add: class_size_eq)
  also have "\<dots> = take_bit 32 (push_bit i (512::nat))"
    by (simp add: unsigned_push_bit_eq)
  also have "\<dots> = 512 * 2 ^ i"
    using lt by (simp add: push_bit_eq_mult take_bit_nat_eq_self_iff mult.commute)
  finally show ?thesis .
qed

lemma class_size_strict_mono:
  assumes "i < j" and "j < MULTIPOOL_ENTRY_COUNT"
  shows "class_size i < class_size j"
proof -
  from assms have "i < MULTIPOOL_ENTRY_COUNT" by simp
  with assms show ?thesis
    by (simp add: word_less_nat_alt unat_class_size)
qed

subsection \<open>What acquire and return leave alone\<close>

lemma pool_mem_acquire_frame:
  assumes "pool_mem_acquire c pool s = Inr (p, s')"
  shows "(\<forall>q. map_option mem_size (get_pool s' q) = map_option mem_size (get_pool s q))
     \<and> multipools s' = multipools s \<and> global_multipool s' = global_multipool s"
proof -
  from assms obtain P where gp: "get_pool s pool = Some P"
    by (subst (asm) pool_mem_acquire_def, subst (asm) pool_mem_acquire_loop.simps)
       (auto split: if_splits option.splits)
  then have pz: "pool \<noteq> 0" by (rule get_pool_nonzero)
  show ?thesis
  proof (cases "head P = 0")
    case True
    have ok: "NDEBUG c \<or> mem_size P \<noteq> 0"
    proof (rule ccontr)
      assume "\<not> (NDEBUG c \<or> mem_size P \<noteq> 0)"
      then have "pool_mem_acquire c pool s = Inl AssertionFailed"
        using gp True pz
        by (simp add: pool_mem_acquire_def pool_mem_acquire_loop.simps
            pool_mem_try_alloc_data_def alloc_poolable_mem_def)
      with assms show False by simp
    qed
    have "mem_size (count_alloc c P) = mem_size P" by (simp add: count_alloc_def)
    with assms gp show ?thesis
      unfolding pool_mem_acquire_empty_eq[OF gp True ok]
      by (auto split: list.splits if_splits)
  next
    case False
    from assms gp False obtain nd where gn: "get_node s (head P) = Some nd"
      by (subst (asm) pool_mem_acquire_def, subst (asm) pool_mem_acquire_loop.simps)
         (auto split: if_splits option.splits)
    have "mem_size (count_unavailable c (P\<lparr>head := node_next nd\<rparr>)) = mem_size P"
      by (simp add: count_unavailable_def)
    with assms gp show ?thesis
      using pool_mem_acquire_loop_hit[OF gp False gn, of c] pz
      by (auto simp: pool_mem_acquire_def)
  qed
qed

lemma pool_mem_return_frame:
  assumes "pool_mem_return c p s = Inr s'"
  shows "(\<forall>q. map_option mem_size (get_pool s' q) = map_option mem_size (get_pool s q))
     \<and> multipools s' = multipools s \<and> global_multipool s' = global_multipool s"
proof -
  from assms obtain n where n: "get_memnode_in_data c p s = Inr n"
    by (auto simp: pool_mem_return_def split: if_splits sum.splits)
  with assms obtain nd where gn: "get_node s n = Some nd"
    and loop: "pool_mem_return_loop c (node_pool nd) n s = Inr s'"
    by (auto simp: pool_mem_return_def split: if_splits option.splits)
  from loop obtain P where gp: "get_pool s (node_pool nd) = Some P"
    by (subst (asm) pool_mem_return_loop.simps) (auto split: option.splits)
  have "mem_size (count_returned c (P\<lparr>head := n\<rparr>)) = mem_size P"
    by (simp add: count_returned_def)
  with loop gp show ?thesis
    unfolding pool_mem_return_loop_eq[OF gp gn]
    by auto
qed

lemma multipool_mem_acquire_frame:
  assumes "multipool_mem_acquire c mp sz s = Inr (p, s')"
  shows "(\<forall>q. map_option mem_size (get_pool s' q) = map_option mem_size (get_pool s q))
     \<and> multipools s' = multipools s \<and> global_multipool s' = global_multipool s"
proof (cases "MULTIPOOL_ENTRY_COUNT \<le> unat (find_multipool_index_for_size sz)")
  case True
  with assms show ?thesis
    by (auto simp: multipool_mem_acquire_def Let_def split: if_splits)
next
  case False
  with assms obtain pool where "pool_mem_acquire c pool s = Inr (p, s')"
    by (auto simp: multipool_mem_acquire_def Let_def split: if_splits sum.splits)
  then show ?thesis by (rule pool_mem_acquire_frame)
qed

lemma global_multipool_mem_acquire_frame:
  assumes "global_multipool_mem_acquire c sz s = Inr (p, s')"
  shows "(\<forall>q. map_option mem_size (get_pool s' q) = map_option mem_size (get_pool s q))
     \<and> multipools s' = multipools s \<and> global_multipool s' = global_multipool s"
  using assms multipool_mem_acquire_frame[of c "global_multipool s" sz s p s']
  by (auto simp: global_multipool_mem_acquire_def split: if_splits)

subsection \<open>Teardown\<close>

lemma free_frames:
  "free_node a s = Inr s' \<Longrightarrow> global_multipool s' = global_multipool s \<and> multipools s' = multipools s"
  "free_block a s = Inr s' \<Longrightarrow> global_multipool s' = global_multipool s \<and> multipools s' = multipools s"
  "free_pool a s = Inr s' \<Longrightarrow> global_multipool s' = global_multipool s \<and> multipools s' = multipools s"
  by (auto simp: free_node_def free_block_def free_pool_def split: if_splits)

lemma upd_pool_frame:
  "upd_pool a f s = Inr s' \<Longrightarrow> global_multipool s' = global_multipool s \<and> multipools s' = multipools s"
  by (auto simp: upd_pool_def set_pool_def split: option.splits)

lemma track_pool_usage_memnode_unavailable_frame:
  "track_pool_usage_memnode_unavailable c pool s = Inr s' \<Longrightarrow>
     global_multipool s' = global_multipool s \<and> multipools s' = multipools s"
  by (auto simp: track_pool_usage_memnode_unavailable_def dest: upd_pool_frame split: if_splits)

lemma free_poolable_mem_frame:
  "free_poolable_mem c node s = Inr s' \<Longrightarrow>
     global_multipool s' = global_multipool s \<and> multipools s' = multipools s"
  by (auto simp: free_poolable_mem_def dest!: free_frames split: if_splits option.splits sum.splits)

lemma pool_mem_free_all_loop_frame:
  "pool_mem_free_all_loop c pool node s = Inr s' \<Longrightarrow>
     global_multipool s' = global_multipool s \<and> multipools s' = multipools s"
proof (induction c pool node s rule: pool_mem_free_all_loop.induct)
  case (1 c pool node s)
  show ?case
  proof (cases "node = 0")
    case True
    with "1.prems" show ?thesis by (simp add: pool_mem_free_all_loop.simps)
  next
    case False
    with "1.prems" obtain nd s1 s2 s3 P where
      a: "get_node s node = Some nd"
      and b: "upd_pool pool (\<lambda>P. P\<lparr>head := node_next nd\<rparr>) s = Inr s1"
      and c: "free_poolable_mem c node s1 = Inr s2"
      and d: "track_pool_usage_memnode_unavailable c pool s2 = Inr s3"
      and e: "get_pool s3 pool = Some P"
      and f: "pool_mem_free_all_loop c pool (head P) s3 = Inr s'"
      by (subst (asm) pool_mem_free_all_loop.simps)
         (auto split: option.splits sum.splits)
    from "1.IH"[OF False a b c d e f]
    have "global_multipool s' = global_multipool s3 \<and> multipools s' = multipools s3" .
    with upd_pool_frame[OF b] free_poolable_mem_frame[OF c]
      track_pool_usage_memnode_unavailable_frame[OF d]
    show ?thesis by simp
  qed
qed

lemma free_mem_pool_frame:
  "free_mem_pool c pool s = Inr s' \<Longrightarrow>
     global_multipool s' = global_multipool s \<and> multipools s' = multipools s"
  by (auto simp: free_mem_pool_def pool_mem_free_all_def
      dest!: free_frames pool_mem_free_all_loop_frame split: if_splits option.splits sum.splits)

lemma multipool_free_loop_frame:
  "multipool_free_loop c mp i s = Inr s' \<Longrightarrow>
     global_multipool s' = global_multipool s \<and> multipools s' = multipools s"
proof (induction c mp i s rule: multipool_free_loop.induct)
  case (1 c mp i s)
  show ?case
  proof (cases "i < MULTIPOOL_ENTRY_COUNT")
    case False
    with "1.prems" show ?thesis by (simp add: multipool_free_loop.simps)
  next
    case True
    with "1.prems" obtain pool s1 where
      a: "get_pools_entry s mp i = Inr pool"
      and b: "free_mem_pool c pool s = Inr s1"
      and c: "multipool_free_loop c mp (i + 1) s1 = Inr s'"
      by (subst (asm) multipool_free_loop.simps) (auto split: sum.splits)
    from "1.IH"[OF True a b c] free_mem_pool_frame[OF b]
    show ?thesis by simp
  qed
qed

lemma multipool_free_result:
  assumes "multipool_free c mp s = Inr s'"
  shows "global_multipool s' = global_multipool s \<and> mp \<noteq> 0
     \<and> get_multipool s mp \<noteq> None \<and> get_multipool s' mp = None"
proof -
  from assms obtain s1 where l: "multipool_free_loop c mp 0 s = Inr s1"
    and f: "free_multipool mp s1 = Inr s'"
    by (auto simp: multipool_free_def split: if_splits sum.splits)
  from l obtain pool where "get_pools_entry s mp 0 = Inr pool"
    by (subst (asm) multipool_free_loop.simps)
       (auto simp: MULTIPOOL_ENTRY_COUNT_def split: sum.splits)
  then have live: "get_multipool s mp \<noteq> None"
    by (auto simp: get_pools_entry_def split: option.splits)
  then have mz: "mp \<noteq> 0" by (auto dest: get_multipool_nonzero)
  from f mz have "s' = s1\<lparr>multipools := fmdrop mp (multipools s1)\<rparr>"
    by (auto simp: free_multipool_def split: if_splits)
  with multipool_free_loop_frame[OF l] live mz show ?thesis
    by simp
qed

lemma get_pool_dom: "get_pool s a = Some P \<Longrightarrow> a |\<in>| fmdom (mempools s)"
  by (auto simp: get_pool_def split: if_splits intro: fmdomI)

lemma get_multipool_dom: "get_multipool s a = Some M \<Longrightarrow> a |\<in>| fmdom (multipools s)"
  by (auto simp: get_multipool_def split: if_splits intro: fmdomI)

lemma free_mem_pool_empty:
  assumes "get_pool s pool = Some P" and "head P = 0"
  shows "free_mem_pool c pool s = Inr (s\<lparr>mempools := fmdrop pool (mempools s)\<rparr>)"
  using assms get_pool_nonzero[OF assms(1)] get_pool_dom[OF assms(1)]
  by (simp add: free_mem_pool_def pool_mem_free_all_def pool_mem_free_all_loop.simps
      free_pool_def)

lemma multipool_free_loop_fresh:
  assumes "get_multipool s mp = Some M" and "length (pools M) = MULTIPOOL_ENTRY_COUNT"
    and "i + k = MULTIPOOL_ENTRY_COUNT"
    and "\<forall>j. i \<le> j \<and> j < MULTIPOOL_ENTRY_COUNT \<longrightarrow>
           (\<exists>P. get_pool s (pools M ! j) = Some P \<and> head P = 0)"
    and "distinct (pools M)"
  shows "\<exists>s'. multipool_free_loop c mp i s = Inr s'"
  using assms
proof (induction k arbitrary: i s)
  case 0
  then show ?case by (subst multipool_free_loop.simps) simp
next
  case (Suc k)
  from Suc.prems(3) have i14: "i < MULTIPOOL_ENTRY_COUNT" by simp
  let ?p = "pools M ! i"
  from Suc.prems(4) i14 obtain P where gp: "get_pool s ?p = Some P" and h: "head P = 0"
    by blast
  let ?s1 = "s\<lparr>mempools := fmdrop ?p (mempools s)\<rparr>"
  have ge: "get_pools_entry s mp i = Inr ?p"
    using Suc.prems(1,2) i14 by (simp add: get_pools_entry_def)
  have fr: "free_mem_pool c ?p s = Inr ?s1" using gp h by (rule free_mem_pool_empty)
  have step: "multipool_free_loop c mp i s = multipool_free_loop c mp (i + 1) ?s1"
    using i14 ge fr by (subst multipool_free_loop.simps) simp
  have g1: "get_multipool ?s1 mp = Some M" using Suc.prems(1) by simp
  have k1: "(i + 1) + k = MULTIPOOL_ENTRY_COUNT" using Suc.prems(3) by simp
  have p1: "\<forall>j. i + 1 \<le> j \<and> j < MULTIPOOL_ENTRY_COUNT \<longrightarrow>
           (\<exists>P. get_pool ?s1 (pools M ! j) = Some P \<and> head P = 0)"
  proof (intro allI impI)
    fix j assume j: "i + 1 \<le> j \<and> j < MULTIPOOL_ENTRY_COUNT"
    then have "pools M ! j \<noteq> pools M ! i"
      using Suc.prems(2,5) i14 by (simp add: nth_eq_iff_index_eq)
    moreover from j have "i \<le> j \<and> j < MULTIPOOL_ENTRY_COUNT" by simp
    with Suc.prems(4) obtain Q where "get_pool s (pools M ! j) = Some Q" "head Q = 0"
      by blast
    ultimately show "\<exists>P. get_pool ?s1 (pools M ! j) = Some P \<and> head P = 0"
      by simp
  qed
  from Suc.IH[OF g1 Suc.prems(2) k1 p1 Suc.prems(5)] step show ?case by simp
qed

lemma global_multipool_free_after_create:
  assumes "malloc_results s0 = mp # ps @ rest" and "mp \<noteq> 0"
    and "length ps = MULTIPOOL_ENTRY_COUNT" and "0 \<notin> set ps" and "distinct ps"
  shows "\<exists>s s'. global_multipool_create s0 = Inr s \<and> global_multipool s = mp
     \<and> global_multipool_free c s = Inr s'"
proof -
  from assms(4,5) have d: "distinct (filter (\<lambda>a. a \<noteq> 0) ps)" by simp
  from multipool_create_result[OF assms(1-3) d] obtain s1 where
    cr: "multipool_create s0 = Inr (mp, s1)"
    and gm: "get_multipool s1 mp = Some \<lparr>pools = ps\<rparr>"
    and gp: "\<forall>j<MULTIPOOL_ENTRY_COUNT. ps ! j \<noteq> 0 \<longrightarrow>
           get_pool s1 (ps ! j) = Some (new_pool (class_size j))"
    by blast
  let ?s = "s1\<lparr>global_multipool := mp\<rparr>"
  have gc: "global_multipool_create s0 = Inr ?s"
    using cr by (simp add: global_multipool_create_def)
  have gm': "get_multipool ?s mp = Some \<lparr>pools = ps\<rparr>" using gm by simp
  have l: "length (pools \<lparr>pools = ps\<rparr>) = MULTIPOOL_ENTRY_COUNT" using assms(3) by simp
  have pl: "\<forall>j. 0 \<le> j \<and> j < MULTIPOOL_ENTRY_COUNT \<longrightarrow>
           (\<exists>P. get_pool ?s (pools \<lparr>pools = ps\<rparr> ! j) = Some P \<and> head P = 0)"
  proof (intro allI impI)
    fix j assume j: "0 \<le> j \<and> j < MULTIPOOL_ENTRY_COUNT"
    with assms(3,4) have "ps ! j \<noteq> 0" by (metis nth_mem)
    with gp j have "get_pool s1 (ps ! j) = Some (new_pool (class_size j))" by simp
    then show "\<exists>P. get_pool ?s (pools \<lparr>pools = ps\<rparr> ! j) = Some P \<and> head P = 0"
      by (simp add: new_pool_def)
  qed
  have dd: "distinct (pools \<lparr>pools = ps\<rparr>)" using assms(5) by simp
  have z: "0 + MULTIPOOL_ENTRY_COUNT = MULTIPOOL_ENTRY_COUNT" by simp
  from multipool_free_loop_fresh[OF gm' l z pl dd, of c] obtain s2 where
    fl: "multipool_free_loop c mp 0 ?s = Inr s2" by blast
  from multipool_free_loop_frame[OF fl] have "multipools s2 = multipools ?s" by simp
  then have "get_multipool s2 mp = get_multipool ?s mp" by (simp add: get_multipool_def)
  with gm' have "get_multipool s2 mp = Some \<lparr>pools = ps\<rparr>" by simp
  then have "mp |\<in>| fmdom (multipools s2)" by (rule get_multipool_dom)
  then have "\<exists>s'. free_multipool mp s2 = Inr s'"
    by (simp add: free_multipool_def)
  with fl assms(2) have "\<exists>s'. global_multipool_free c ?s = Inr s'"
    by (auto simp: global_multipool_free_def multipool_free_def)
  with gc show ?thesis by auto
qed

subsection \<open>The shape of the store is kept\<close>

text \<open>
  Construction of pools and multipools, acquire and return keep \<open>store_inv\<close>, and a block
  that is out stays out (\<open>block_of\<close>) while other blocks are acquired and returned, as
  long as the allocator hands out addresses that are not in use (\<open>malloc_fresh\<close>). So
  the stores that these operations reach from one without nodes satisfy \<open>store_inv\<close>,
  and \<open>block_of\<close> holds of every pointer that was acquired, whatever was acquired or
  returned since.
\<close>

lemma get_block_nonzero: "get_block s a = Some b \<Longrightarrow> a \<noteq> 0"
  by (auto simp: get_block_def split: if_splits)

lemma store_invI:
  assumes "\<And>n nd. get_node s n = Some nd \<Longrightarrow> node_wf s n nd"
    and "\<And>pool P. get_pool s pool = Some P \<Longrightarrow> pool_wf s pool P"
  shows "store_inv s"
  using assms by (simp add: store_inv_def)

lemma store_inv_node: "store_inv s \<Longrightarrow> get_node s n = Some nd \<Longrightarrow> node_wf s n nd"
  by (simp add: store_inv_def)

lemma store_inv_pool: "store_inv s \<Longrightarrow> get_pool s pool = Some P \<Longrightarrow> pool_wf s pool P"
  by (simp add: store_inv_def)

lemma store_inv_env:
  assumes "store_inv s"
  shows "store_inv (s\<lparr>malloc_results := r\<rparr>)" and "store_inv (s\<lparr>cas_spurious := f\<rparr>)"
  using assms by (simp_all add: store_inv_def node_wf_def pool_wf_def)

lemma store_inv_set_pool:
  assumes inv: "store_inv s" and live: "get_pool s pool = Some P \<or> head Q = 0"
    and wf: "head Q \<noteq> 0 \<longrightarrow> map_option node_pool (get_node s (head Q)) = Some pool"
    and "pool \<noteq> 0"
  shows "store_inv (s\<lparr>mempools := fmupd pool Q (mempools s)\<rparr>)"
proof (rule store_invI)
  let ?s = "s\<lparr>mempools := fmupd pool Q (mempools s)\<rparr>"
  fix n nd assume "get_node ?s n = Some nd"
  then have gn: "get_node s n = Some nd" by simp
  from store_inv_node[OF inv gn] show "node_wf ?s n nd"
    by (auto simp: node_wf_def dest: get_pool_nonzero)
next
  let ?s = "s\<lparr>mempools := fmupd pool Q (mempools s)\<rparr>"
  fix q R assume g: "get_pool ?s q = Some R"
  show "pool_wf ?s q R"
  proof (cases "q = pool")
    case True
    with g assms(4) have "R = Q" by simp
    with wf True show ?thesis by (simp add: pool_wf_def)
  next
    case False
    with g have "get_pool s q = Some R" by (simp split: if_splits)
    from store_inv_pool[OF inv this] show ?thesis by (simp add: pool_wf_def)
  qed
qed

lemma store_inv_alloc_mem_pool:
  assumes "store_inv s" and "alloc_mem_pool sz s = (pool, s')"
  shows "store_inv s'"
proof (cases "malloc_results s")
  case Nil
  with assms show ?thesis by (simp add: alloc_mem_pool_eq)
next
  case (Cons a r)
  show ?thesis
  proof (cases "a = 0")
    case True
    with Cons assms show ?thesis by (auto simp: alloc_mem_pool_eq store_inv_env)
  next
    case False
    have "store_inv (s\<lparr>mempools := fmupd a (new_pool sz) (mempools s)\<rparr>)"
      using assms(1) False by (intro store_inv_set_pool) (simp_all add: new_pool_def)
    then have "store_inv (s\<lparr>mempools := fmupd a (new_pool sz) (mempools s)\<rparr>
                           \<lparr>malloc_results := r\<rparr>)"
      by (rule store_inv_env)
    with Cons False assms(2) show ?thesis by (auto simp: alloc_mem_pool_eq)
  qed
qed

lemma store_inv_pool_mem_return:
  assumes inv: "store_inv s" and b: "block_of s pool p"
    and r: "pool_mem_return c p s = Inr s'"
  shows "store_inv s'"
proof -
  from b obtain bl nd P where p8: "sizeof_ptrdiff_t \<le> p"
    and gb: "get_block s (p - sizeof_ptrdiff_t) = Some bl"
    and gn: "get_node s (owner bl) = Some nd" and d: "node_data nd = p"
    and np: "node_pool nd = pool" and gp: "get_pool s pool = Some P"
    by (rule block_ofE)
  let ?n = "owner bl"
  let ?nd = "nd\<lparr>node_next := head P\<rparr>"
  let ?Q = "count_returned c (P\<lparr>head := ?n\<rparr>)"
  from gn have nz: "?n \<noteq> 0" by (rule get_node_nonzero)
  from gp have pz: "pool \<noteq> 0" by (rule get_pool_nonzero)
  have hQ: "head ?Q = ?n" by (simp add: count_returned_def)
  from r have s': "s' = s\<lparr>nodes := fmupd ?n ?nd (nodes s),
            mempools := fmupd pool ?Q (mempools s),
            cas_spurious := after_exchange (cas_spurious s)\<rparr>"
    using pool_mem_return_block[OF gb p8 gn, of P c] gp np by simp
  have wfn: "node_wf s ?n nd" using inv gn by (rule store_inv_node)
  have wfp: "pool_wf s pool P" using inv gp by (rule store_inv_pool)
  show ?thesis
  proof (rule store_invI)
    fix m md assume g: "get_node s' m = Some md"
    show "node_wf s' m md"
    proof (cases "m = ?n")
      case True
      with g nz have md: "md = ?nd" by (simp add: s')
      from wfn wfp np pz nz show ?thesis
        unfolding md True
        by (auto simp: node_wf_def pool_wf_def s')
    next
      case False
      with g have gm: "get_node s m = Some md" by (simp add: s' split: if_splits)
      from store_inv_node[OF inv gm] gn np show ?thesis
        by (auto simp: node_wf_def s' dest: get_pool_nonzero get_node_nonzero)
    qed
  next
    fix q R assume g: "get_pool s' q = Some R"
    show "pool_wf s' q R"
    proof (cases "q = pool")
      case True
      with g pz have "R = ?Q" by (simp add: s')
      with True nz np hQ show ?thesis
        by (simp add: pool_wf_def s')
    next
      case False
      with g have gq: "get_pool s q = Some R" by (simp add: s' split: if_splits)
      from store_inv_pool[OF inv gq] gn np False show ?thesis
        by (auto simp: pool_wf_def s')
    qed
  qed
qed

lemma pool_mem_acquire_cases:
  assumes "pool_mem_acquire c pool s = Inr (p, s')"
  obtains (miss) P where "get_pool s pool = Some P" "head P = 0" "NDEBUG c \<or> mem_size P \<noteq> 0"
  | (hit) P nd where "get_pool s pool = Some P" "head P \<noteq> 0" "get_node s (head P) = Some nd"
      "p = node_data nd"
      "s' = s\<lparr>mempools := fmupd pool (count_unavailable c (P\<lparr>head := node_next nd\<rparr>)) (mempools s),
            cas_spurious := after_exchange (cas_spurious s)\<rparr>"
proof -
  from assms obtain P where gp: "get_pool s pool = Some P"
    by (subst (asm) pool_mem_acquire_def, subst (asm) pool_mem_acquire_loop.simps)
       (auto split: if_splits option.splits)
  then have pz: "pool \<noteq> 0" by (rule get_pool_nonzero)
  show thesis
  proof (cases "head P = 0")
    case True
    have ok: "NDEBUG c \<or> mem_size P \<noteq> 0"
    proof (rule ccontr)
      assume "\<not> (NDEBUG c \<or> mem_size P \<noteq> 0)"
      then have "pool_mem_acquire c pool s = Inl AssertionFailed"
        using gp True pz
        by (simp add: pool_mem_acquire_def pool_mem_acquire_loop.simps
            pool_mem_try_alloc_data_def alloc_poolable_mem_def)
      with assms show False by simp
    qed
    from gp True ok show thesis by (rule miss)
  next
    case False
    from assms gp False obtain nd where gn: "get_node s (head P) = Some nd"
      by (subst (asm) pool_mem_acquire_def, subst (asm) pool_mem_acquire_loop.simps)
         (auto split: if_splits option.splits)
    from assms have "p = node_data nd"
      and "s' = s\<lparr>mempools := fmupd pool (count_unavailable c (P\<lparr>head := node_next nd\<rparr>)) (mempools s),
            cas_spurious := after_exchange (cas_spurious s)\<rparr>"
      using pool_mem_acquire_loop_hit[OF gp False gn, of c] pz
      by (simp_all add: pool_mem_acquire_def)
    with gp False gn show thesis by (rule hit)
  qed
qed

lemma store_inv_cong:
  assumes "store_inv s" and "get_node t = get_node s" and "get_block t = get_block s"
    and "get_pool t = get_pool s"
  shows "store_inv t"
  using assms by (simp add: store_inv_def node_wf_def pool_wf_def)

lemma store_inv_drop_fresh_node:
  assumes "store_inv s" and "get_node s n = None"
  shows "store_inv (s\<lparr>nodes := fmdrop n (nodes s), malloc_results := r\<rparr>)"
proof (rule store_inv_cong[OF assms(1)])
  show "get_node (s\<lparr>nodes := fmdrop n (nodes s), malloc_results := r\<rparr>) = get_node s"
    using assms(2) by (auto simp: fun_eq_iff)
qed simp_all

lemma store_inv_new_block:
  assumes inv: "store_inv s" and gp: "get_pool s pool = Some P"
    and fn: "get_node s n = None" and fb: "get_block s b = None"
    and nz: "n \<noteq> 0" and bz: "b \<noteq> 0" and hQ: "head Q = head P"
  shows "store_inv (s\<lparr>nodes := fmupd n \<lparr>node_next = 0, node_data = b + sizeof_ptrdiff_t,
                                          node_pool = pool\<rparr> (nodes s),
                       blocks := fmupd b \<lparr>owner = n, alloc_size = k\<rparr> (blocks s),
                       mempools := fmupd pool Q (mempools s),
                       malloc_results := r\<rparr>)"
    (is "store_inv ?s")
proof (rule store_invI)
  from gp have pz: "pool \<noteq> 0" by (rule get_pool_nonzero)
  fix m md assume g: "get_node ?s m = Some md"
  show "node_wf ?s m md"
  proof (cases "m = n")
    case True
    with g nz have "md = \<lparr>node_next = 0, node_data = b + sizeof_ptrdiff_t, node_pool = pool\<rparr>"
      by simp
    with True bz pz show ?thesis by (simp add: node_wf_def)
  next
    case False
    with g have gm: "get_node s m = Some md" by (simp split: if_splits)
    from store_inv_node[OF inv gm] have wf: "node_wf s m md" .
    then obtain bl where bl: "get_block s (node_data md - sizeof_ptrdiff_t) = Some bl"
      "owner bl = m"
      by (auto simp: node_wf_def)
    with fb have nb: "node_data md - sizeof_ptrdiff_t \<noteq> b" by auto
    from wf fn have nn: "node_next md \<noteq> 0 \<longrightarrow> node_next md \<noteq> n"
      by (auto simp: node_wf_def)
    from wf nb nn bl show ?thesis
      by (auto simp: node_wf_def dest: get_pool_nonzero get_block_nonzero)
  qed
next
  from gp have pz: "pool \<noteq> 0" by (rule get_pool_nonzero)
  fix q R assume g: "get_pool ?s q = Some R"
  have hn: "get_node s h = Some x \<Longrightarrow> h \<noteq> n" for h x using fn by auto
  show "pool_wf ?s q R"
  proof (cases "q = pool")
    case True
    with g pz have "R = Q" by simp
    with store_inv_pool[OF inv gp] hQ True fn show ?thesis
      by (auto simp: pool_wf_def)
  next
    case False
    with g have gq: "get_pool s q = Some R" by (simp split: if_splits)
    from store_inv_pool[OF inv gq] fn show ?thesis
      by (auto simp: pool_wf_def)
  qed
qed

lemma store_inv_pool_mem_acquire:
  assumes inv: "store_inv s" and fresh: "malloc_fresh s"
    and acq: "pool_mem_acquire c pool s = Inr (p, s')"
  shows "store_inv s'"
  using acq
proof (cases rule: pool_mem_acquire_cases)
  case (miss P)
  note eq = acq[unfolded pool_mem_acquire_empty_eq[OF miss]]
  show ?thesis
  proof (cases "malloc_results s")
    case Nil
    with eq inv show ?thesis by simp
  next
    case (Cons n r1)
    note c1 = Cons
    show ?thesis
    proof (cases "n = 0")
      case True
      with eq c1 inv show ?thesis by (auto simp: store_inv_env)
    next
      case False
      from fresh c1 have fn: "get_node s n = None" by (simp add: malloc_fresh_def)
      show ?thesis
      proof (cases r1)
        case Nil
        with eq c1 False have "s' = s\<lparr>nodes := fmdrop n (nodes s), malloc_results := []\<rparr>"
          by simp
        then show ?thesis using inv fn by (simp add: store_inv_drop_fresh_node)
      next
        case (Cons b r2)
        from fresh c1 Cons have fb: "get_block s b = None" by (simp add: malloc_fresh_def)
        show ?thesis
        proof (cases "b = 0")
          case True
          with eq c1 Cons False
          have "s' = s\<lparr>nodes := fmdrop n (nodes s), malloc_results := r2\<rparr>" by simp
          then show ?thesis using inv fn by (simp add: store_inv_drop_fresh_node)
        next
          case bz: False
          have hQ: "head (count_alloc c P) = head P" by (simp add: count_alloc_def)
          from eq c1 Cons False bz
          have "s' = s\<lparr>nodes := fmupd n \<lparr>node_next = 0, node_data = b + sizeof_ptrdiff_t,
                                          node_pool = pool\<rparr> (nodes s),
                       blocks := fmupd b \<lparr>owner = n,
                          alloc_size = unat (mem_size P) + sizeof_ptrdiff_t\<rparr> (blocks s),
                       mempools := fmupd pool (count_alloc c P) (mempools s),
                       malloc_results := r2\<rparr>"
            by auto
          then show ?thesis
            using store_inv_new_block[OF inv miss(1) fn fb False bz hQ] by simp
        qed
      qed
    qed
  qed
next
  case (hit P nd)
  let ?Q = "count_unavailable c (P\<lparr>head := node_next nd\<rparr>)"
  from hit(1) have pz: "pool \<noteq> 0" by (rule get_pool_nonzero)
  have hQ: "head ?Q = node_next nd" by (simp add: count_unavailable_def)
  from store_inv_pool[OF inv hit(1)] hit(2,3) have np: "node_pool nd = pool"
    by (simp add: pool_wf_def)
  from store_inv_node[OF inv hit(3)] np
  have nx: "node_next nd \<noteq> 0 \<longrightarrow> map_option node_pool (get_node s (node_next nd)) = Some pool"
    by (simp add: node_wf_def)
  have "store_inv (s\<lparr>mempools := fmupd pool ?Q (mempools s)\<rparr>)"
    using inv _ _ pz
  proof (rule store_inv_set_pool)
    show "get_pool s pool = Some P \<or> head ?Q = 0" using hit(1) by simp
    show "head ?Q \<noteq> 0 \<longrightarrow> map_option node_pool (get_node s (head ?Q)) = Some pool"
      using nx hQ by simp
  qed
  then have "store_inv (s\<lparr>mempools := fmupd pool ?Q (mempools s)\<rparr>
                         \<lparr>cas_spurious := after_exchange (cas_spurious s)\<rparr>)"
    by (rule store_inv_env)
  then show ?thesis by (simp add: hit(5))
qed

lemma block_of_pool_mem_acquire:
  assumes b: "block_of s pool p" and fresh: "malloc_fresh s"
    and acq: "pool_mem_acquire c q s = Inr (p', s')"
  shows "block_of s' pool p"
proof -
  from b obtain bl nd P where p8: "sizeof_ptrdiff_t \<le> p"
    and gb: "get_block s (p - sizeof_ptrdiff_t) = Some bl"
    and gn: "get_node s (owner bl) = Some nd" and d: "node_data nd = p"
    and np: "node_pool nd = pool" and gp: "get_pool s pool = Some P"
    by (rule block_ofE)
  from gp have pz: "pool \<noteq> 0" by (rule get_pool_nonzero)
  from gn have nz: "owner bl \<noteq> 0" by (rule get_node_nonzero)
  from gb have bz: "p - sizeof_ptrdiff_t \<noteq> 0" by (rule get_block_nonzero)
  from acq show ?thesis
  proof (cases rule: pool_mem_acquire_cases)
    case (hit Q md)
    from p8 gb gn d np gp pz show ?thesis
      by (simp add: block_of_def hit(5))
  next
    case (miss Q)
    note eq = acq[unfolded pool_mem_acquire_empty_eq[OF miss]]
    have fn: "malloc_results s = n # r \<Longrightarrow> n \<noteq> owner bl" for n r
      using fresh gn by (auto simp: malloc_fresh_def)
    have fb: "malloc_results s = n # m # r \<Longrightarrow> m \<noteq> p - sizeof_ptrdiff_t" for n m r
      using fresh gb by (auto simp: malloc_fresh_def)
    from eq p8 gb gn d np gp pz nz bz fn fb show ?thesis
      by (auto simp: block_of_def split: list.splits if_splits)
  qed
qed

lemma block_of_pool_mem_return:
  assumes b: "block_of s pool p" and b': "block_of s q p'"
    and r: "pool_mem_return c p' s = Inr s'"
  shows "block_of s' pool p"
proof -
  from b obtain bl nd P where p8: "sizeof_ptrdiff_t \<le> p"
    and gb: "get_block s (p - sizeof_ptrdiff_t) = Some bl"
    and gn: "get_node s (owner bl) = Some nd" and d: "node_data nd = p"
    and np: "node_pool nd = pool" and gp: "get_pool s pool = Some P"
    by (rule block_ofE)
  from b' obtain bl' nd' Q where p8': "sizeof_ptrdiff_t \<le> p'"
    and gb': "get_block s (p' - sizeof_ptrdiff_t) = Some bl'"
    and gn': "get_node s (owner bl') = Some nd'"
    and np': "node_pool nd' = q" and gq: "get_pool s q = Some Q"
    by (rule block_ofE)
  from gp have pz: "pool \<noteq> 0" by (rule get_pool_nonzero)
  from gn have nz: "owner bl \<noteq> 0" by (rule get_node_nonzero)
  from r have s': "s' = s\<lparr>nodes := fmupd (owner bl') (nd'\<lparr>node_next := head Q\<rparr>) (nodes s),
            mempools := fmupd q (count_returned c (Q\<lparr>head := owner bl'\<rparr>)) (mempools s),
            cas_spurious := after_exchange (cas_spurious s)\<rparr>"
    using pool_mem_return_block[OF gb' p8' gn', of Q c] gq np' by simp
  from p8 gb gn d np gp pz nz gn' show ?thesis
    by (auto simp: block_of_def s')
qed

lemma store_inv_multipool_create_loop:
  "store_inv s \<Longrightarrow> multipool_create_loop mp i s = Inr s' \<Longrightarrow> store_inv s'"
proof (induction mp i s rule: multipool_create_loop.induct)
  case (1 mp i s)
  show ?case
  proof (cases "i < MULTIPOOL_ENTRY_COUNT")
    case False
    with "1.prems" show ?thesis by (simp add: multipool_create_loop.simps)
  next
    case True
    obtain pool s1 where
      a: "alloc_mem_pool (push_bit (DynPoolMinMultiPoolMemNodeSizeBits + i) 1) s = (pool, s1)"
      by (cases "alloc_mem_pool (push_bit (DynPoolMinMultiPoolMemNodeSizeBits + i) 1) s")
    with "1.prems"(2) True obtain s2 where
      b: "set_pools_entry mp i pool s1 = Inr s2"
      and c: "multipool_create_loop mp (i + 1) s2 = Inr s'"
      by (subst (asm) multipool_create_loop.simps) (auto split: sum.splits)
    from "1.prems"(1) a have i1: "store_inv s1" by (rule store_inv_alloc_mem_pool)
    from b have "get_node s2 = get_node s1" "get_block s2 = get_block s1"
      "get_pool s2 = get_pool s1"
      by (auto simp: set_pools_entry_def set_multipool_def split: option.splits if_splits)
    with i1 have i2: "store_inv s2" by (rule store_inv_cong)
    from "1.IH"[OF True a[symmetric] b i2 c] show ?thesis .
  qed
qed

lemma store_inv_multipool_create:
  assumes "store_inv s" and "multipool_create s = Inr (mp, s')"
  shows "store_inv s'"
proof -
  obtain a s1 where m: "malloc s = (a, s1)" by (cases "malloc s")
  then have s1: "s1 = s \<or> s1 = s\<lparr>malloc_results := tl (malloc_results s)\<rparr>"
    by (auto simp: malloc_def split: list.splits)
  with assms(1) have i1: "store_inv s1" by (auto simp: store_inv_env)
  show ?thesis
  proof (cases "a = 0")
    case True
    with assms(2) m i1 show ?thesis by (simp add: multipool_create_def)
  next
    case False
    let ?s2 = "set_multipool a \<lparr>pools = replicate MULTIPOOL_ENTRY_COUNT 0\<rparr> s1"
    have "store_inv ?s2"
      by (rule store_inv_cong[OF i1]) (simp_all add: set_multipool_def)
    moreover from assms(2) m False have "multipool_create_loop a 0 ?s2 = Inr s'"
      by (auto simp: multipool_create_def split: sum.splits)
    ultimately show ?thesis by (rule store_inv_multipool_create_loop)
  qed
qed

lemma store_inv_no_nodes:
  assumes "nodes s = fmempty" and "mempools s = fmempty"
  shows "store_inv s"
  using assms by (simp add: store_inv_def get_node_def get_pool_def)

lemma pool_mem_return_cases:
  assumes "pool_mem_return c p s = Inr s'"
  obtains bl nd P where "sizeof_ptrdiff_t \<le> p"
    "get_block s (p - sizeof_ptrdiff_t) = Some bl"
    "get_node s (owner bl) = Some nd" "get_pool s (node_pool nd) = Some P"
    "s' = s\<lparr>nodes := fmupd (owner bl) (nd\<lparr>node_next := head P\<rparr>) (nodes s),
            mempools := fmupd (node_pool nd) (count_returned c (P\<lparr>head := owner bl\<rparr>))
                          (mempools s),
            cas_spurious := after_exchange (cas_spurious s)\<rparr>"
proof -
  from assms obtain n where n: "get_memnode_in_data c p s = Inr n"
    by (auto simp: pool_mem_return_def split: if_splits sum.splits)
  then obtain bl where p8: "sizeof_ptrdiff_t \<le> p"
    and gb: "get_block s (p - sizeof_ptrdiff_t) = Some bl" and o: "n = owner bl"
    by (auto simp: get_memnode_in_data_def split: if_splits option.splits)
  from assms n obtain nd where gn: "get_node s n = Some nd"
    and loop: "pool_mem_return_loop c (node_pool nd) n s = Inr s'"
    by (auto simp: pool_mem_return_def split: if_splits option.splits)
  from loop obtain P where gp: "get_pool s (node_pool nd) = Some P"
    by (subst (asm) pool_mem_return_loop.simps) (auto split: option.splits)
  from loop have "s' = s\<lparr>nodes := fmupd n (nd\<lparr>node_next := head P\<rparr>) (nodes s),
            mempools := fmupd (node_pool nd) (count_returned c (P\<lparr>head := n\<rparr>))
                          (mempools s),
            cas_spurious := after_exchange (cas_spurious s)\<rparr>"
    unfolding pool_mem_return_loop_eq[OF gp gn] by simp
  with p8 gb gn gp o show thesis by (intro that[of bl nd P]) simp_all
qed

lemma block_of_iff:
  "block_of s pool p \<longleftrightarrow>
     sizeof_ptrdiff_t \<le> p \<and>
     (\<exists>b nd P. get_block s (p - sizeof_ptrdiff_t) = Some b \<and>
        get_node s (owner b) = Some nd \<and> node_data nd = p \<and> node_pool nd = pool \<and>
        get_pool s pool = Some P)"
  by (auto simp: block_of_def split: option.splits)

lemma block_of_any_pool_mem_return:
  assumes b: "block_of s pool p" and r: "pool_mem_return c p' s = Inr s'"
  shows "block_of s' pool p"
proof -
  from b obtain bl nd P where p8: "sizeof_ptrdiff_t \<le> p"
    and gb: "get_block s (p - sizeof_ptrdiff_t) = Some bl"
    and gn: "get_node s (owner bl) = Some nd" and d: "node_data nd = p"
    and np: "node_pool nd = pool" and gp: "get_pool s pool = Some P"
    by (rule block_ofE)
  from gp have pz: "pool \<noteq> 0" by (rule get_pool_nonzero)
  from gn have nz: "owner bl \<noteq> 0" by (rule get_node_nonzero)
  from r show ?thesis
  proof (cases rule: pool_mem_return_cases)
    case (1 bl' nd' Q)
    have b1: "get_block s' (p - sizeof_ptrdiff_t) = Some bl"
      using gb by (simp add: 1(5))
    have "get_node s' (owner bl) =
        Some (if owner bl' = owner bl then nd'\<lparr>node_next := head Q\<rparr> else nd)"
      using gn nz by (simp add: 1(5))
    moreover have "owner bl' = owner bl \<Longrightarrow> nd' = nd" using gn 1(3) by simp
    ultimately obtain md where n1: "get_node s' (owner bl) = Some md"
      and "node_data md = p" "node_pool md = pool"
      using d np by (cases "owner bl' = owner bl") auto
    moreover have "\<exists>R. get_pool s' pool = Some R"
      using gp pz by (simp add: 1(5))
    ultimately show ?thesis
      using p8 b1 by (auto simp: block_of_iff)
  qed
qed

lemma block_of_alloc_mem_pool:
  assumes "block_of s pool p" and "alloc_mem_pool sz s = (a, s')"
  shows "block_of s' pool p"
proof -
  from assms(1) have pz: "pool \<noteq> 0" by (auto simp: block_of_iff dest: get_pool_nonzero)
  from assms(2) have "get_node s' = get_node s" "get_block s' = get_block s"
    "get_pool s' pool \<noteq> None \<or> get_pool s pool = None"
    using pz by (auto simp: alloc_mem_pool_eq split: list.splits if_splits)
  with assms(1) show ?thesis by (auto simp: block_of_iff)
qed

lemma block_of_cong:
  assumes "block_of s pool p" and "get_node t = get_node s" and "get_block t = get_block s"
    and "get_pool t = get_pool s"
  shows "block_of t pool p"
  using assms by (simp add: block_of_iff)

lemma block_of_multipool_create_loop:
  "block_of s pool p \<Longrightarrow> multipool_create_loop mp i s = Inr s' \<Longrightarrow> block_of s' pool p"
proof (induction mp i s rule: multipool_create_loop.induct)
  case (1 mp i s)
  show ?case
  proof (cases "i < MULTIPOOL_ENTRY_COUNT")
    case False
    with "1.prems" show ?thesis by (simp add: multipool_create_loop.simps)
  next
    case True
    obtain a s1 where
      a: "alloc_mem_pool (push_bit (DynPoolMinMultiPoolMemNodeSizeBits + i) 1) s = (a, s1)"
      by (cases "alloc_mem_pool (push_bit (DynPoolMinMultiPoolMemNodeSizeBits + i) 1) s")
    with "1.prems"(2) True obtain s2 where
      b: "set_pools_entry mp i a s1 = Inr s2"
      and c: "multipool_create_loop mp (i + 1) s2 = Inr s'"
      by (subst (asm) multipool_create_loop.simps) (auto split: sum.splits)
    from "1.prems"(1) a have i1: "block_of s1 pool p" by (rule block_of_alloc_mem_pool)
    from b have "get_node s2 = get_node s1" "get_block s2 = get_block s1"
      "get_pool s2 = get_pool s1"
      by (auto simp: set_pools_entry_def set_multipool_def split: option.splits if_splits)
    with i1 have i2: "block_of s2 pool p" by (rule block_of_cong)
    from "1.IH"[OF True a[symmetric] b i2 c] show ?thesis .
  qed
qed

lemma block_of_multipool_create:
  assumes "block_of s pool p" and "multipool_create s = Inr (mp, s')"
  shows "block_of s' pool p"
proof -
  obtain a s1 where m: "malloc s = (a, s1)" by (cases "malloc s")
  then have s1: "s1 = s \<or> s1 = s\<lparr>malloc_results := tl (malloc_results s)\<rparr>"
    by (auto simp: malloc_def split: list.splits)
  with assms(1) have i1: "block_of s1 pool p" by (auto simp: block_of_iff)
  show ?thesis
  proof (cases "a = 0")
    case True
    with assms(2) m i1 show ?thesis by (simp add: multipool_create_def)
  next
    case False
    let ?s2 = "set_multipool a \<lparr>pools = replicate MULTIPOOL_ENTRY_COUNT 0\<rparr> s1"
    have "block_of ?s2 pool p"
      by (rule block_of_cong[OF i1]) (simp_all add: set_multipool_def)
    moreover from assms(2) m False have "multipool_create_loop a 0 ?s2 = Inr s'"
      by (auto simp: multipool_create_def split: sum.splits)
    ultimately show ?thesis by (rule block_of_multipool_create_loop)
  qed
qed

lemma block_of_multipool_mem_acquire:
  assumes "block_of s pool p" and "malloc_fresh s"
    and "multipool_mem_acquire c mp sz s = Inr (p', s')"
  shows "block_of s' pool p"
proof (cases "MULTIPOOL_ENTRY_COUNT \<le> unat (find_multipool_index_for_size sz)")
  case True
  with assms show ?thesis
    by (auto simp: multipool_mem_acquire_def Let_def split: if_splits)
next
  case False
  with assms(3) obtain q where "pool_mem_acquire c q s = Inr (p', s')"
    by (auto simp: multipool_mem_acquire_def Let_def split: if_splits sum.splits)
  with assms(1,2) show ?thesis by (rule block_of_pool_mem_acquire)
qed

lemma block_of_global_multipool_create:
  assumes "block_of s pool p" and "global_multipool_create s = Inr s'"
  shows "block_of s' pool p"
proof -
  from assms(2) obtain mp s1 where c: "multipool_create s = Inr (mp, s1)"
    and s': "s' = s1\<lparr>global_multipool := mp\<rparr>"
    by (auto simp: global_multipool_create_def split: sum.splits)
  from assms(1) c have "block_of s1 pool p" by (rule block_of_multipool_create)
  then show ?thesis by (simp add: s' block_of_iff)
qed

lemma block_of_global_multipool_mem_acquire:
  assumes "block_of s pool p" and "malloc_fresh s"
    and "global_multipool_mem_acquire c sz s = Inr (p', s')"
  shows "block_of s' pool p"
  using assms block_of_multipool_mem_acquire[of s pool p c "global_multipool s" sz p' s']
  by (auto simp: global_multipool_mem_acquire_def split: if_splits)

lemma block_of_run_calls:
  "block_of s pool p \<Longrightarrow> run_calls c calls s = Some s' \<Longrightarrow> block_of s' pool p"
proof (induction calls arbitrary: s)
  case Nil
  then show ?case by simp
next
  case (Cons call calls)
  show ?case
  proof (cases call)
    case (Acquire q)
    with Cons.prems(2) obtain p' s1 where "malloc_fresh s"
      "pool_mem_acquire c q s = Inr (p', s1)" "run_calls c calls s1 = Some s'"
      by (auto split: if_splits sum.splits)
    with Cons.prems(1) Cons.IH show ?thesis
      by (blast intro: block_of_pool_mem_acquire)
  next
    case (Return q)
    with Cons.prems(2) obtain s1 where
      "pool_mem_return c q s = Inr s1" "run_calls c calls s1 = Some s'"
      by (auto split: sum.splits)
    with Cons.prems(1) Cons.IH show ?thesis
      by (blast intro: block_of_any_pool_mem_return)
  next
    case (AllocPool sz)
    with Cons.prems(2) obtain a s1 where
      "alloc_mem_pool sz s = (a, s1)" "run_calls c calls s1 = Some s'"
      by (auto split: prod.splits)
    with Cons.prems(1) Cons.IH show ?thesis
      by (blast intro: block_of_alloc_mem_pool)
  next
    case MultiCreate
    with Cons.prems(2) obtain mp s1 where
      "multipool_create s = Inr (mp, s1)" "run_calls c calls s1 = Some s'"
      by (auto split: sum.splits)
    with Cons.prems(1) Cons.IH show ?thesis
      by (blast intro: block_of_multipool_create)
  next
    case (MultiAcquire mp sz)
    with Cons.prems(2) obtain p' s1 where "malloc_fresh s"
      "multipool_mem_acquire c mp sz s = Inr (p', s1)" "run_calls c calls s1 = Some s'"
      by (auto split: if_splits sum.splits)
    with Cons.prems(1) Cons.IH show ?thesis
      by (blast intro: block_of_multipool_mem_acquire)
  next
    case GlobalCreate
    with Cons.prems(2) obtain s1 where
      "global_multipool_create s = Inr s1" "run_calls c calls s1 = Some s'"
      by (auto split: sum.splits)
    with Cons.prems(1) Cons.IH show ?thesis
      by (blast intro: block_of_global_multipool_create)
  next
    case (GlobalAcquire sz)
    with Cons.prems(2) obtain p' s1 where "malloc_fresh s"
      "global_multipool_mem_acquire c sz s = Inr (p', s1)" "run_calls c calls s1 = Some s'"
      by (auto split: if_splits sum.splits)
    with Cons.prems(1) Cons.IH show ?thesis
      by (blast intro: block_of_global_multipool_mem_acquire)
  qed
qed

subsection \<open>Sizes beyond the largest class\<close>

lemma index_out_of_range:
  assumes "4194304 < unat sz"
  shows "MULTIPOOL_ENTRY_COUNT \<le> unat (find_multipool_index_for_size sz)"
proof (rule ccontr)
  let ?k = "unat (find_multipool_index_for_size sz)"
  assume "\<not> MULTIPOOL_ENTRY_COUNT \<le> ?k"
  then have "?k \<le> 13" by (simp add: MULTIPOOL_ENTRY_COUNT_def)
  then have "(2::nat) ^ ?k \<le> 2 ^ 13" by (rule power_increasing) simp
  then have "512 * (2::nat) ^ ?k \<le> 4194304" by simp
  moreover from assms have "unat sz \<le> 512 * 2 ^ ?k" by (intro index_large(3)) simp
  ultimately show False using assms by simp
qed

lemma multipool_mem_acquire_index_out_of_range:
  assumes "MULTIPOOL_ENTRY_COUNT \<le> unat (find_multipool_index_for_size sz)"
  shows "multipool_mem_acquire c multipool sz s =
     (if NDEBUG c then Inr (0, s) else Inl AssertionFailed)"
  using assms by (simp add: multipool_mem_acquire_def Let_def)

lemma example_boot_create:
  obtains s where "multipool_create example_boot = Inr (4096, s)"
    and "example_multipool = (4096, s)"
    and "get_multipool s 4096 =
      Some \<lparr>pools = [8192, 8224, 8256, 8288, 8320, 8352, 8384, 8416, 8448, 8480,
                        8512, 8544, 8576, 8608]\<rparr>"
    and "get_pool s 8288 = Some (new_pool 4096)"
    and "malloc_results s = [12288, 16384]"
proof -
  let ?ps = "[8192, 8224, 8256, 8288, 8320, 8352, 8384, 8416, 8448, 8480,
              8512, 8544, 8576, 8608] :: addr list"
  have m: "malloc_results example_boot = 4096 # ?ps @ [12288, 16384]"
    by (simp add: example_boot_def)
  have d: "distinct (filter (\<lambda>a. a \<noteq> 0) ?ps)" by simp
  have l: "length ?ps = MULTIPOOL_ENTRY_COUNT" by (simp add: MULTIPOOL_ENTRY_COUNT_def)
  from multipool_create_result[OF m _ l d] obtain s where
    c: "multipool_create example_boot = Inr (4096, s)"
    and g: "get_multipool s 4096 = Some \<lparr>pools = ?ps\<rparr>"
    and r: "malloc_results s = [12288, 16384]"
    and p: "\<forall>j<MULTIPOOL_ENTRY_COUNT. ?ps ! j \<noteq> 0 \<longrightarrow>
           get_pool s (?ps ! j) = Some (new_pool (class_size j))"
    by auto
  from p have "(3::nat) < MULTIPOOL_ENTRY_COUNT \<longrightarrow> ?ps ! 3 \<noteq> 0 \<longrightarrow>
           get_pool s (?ps ! 3) = Some (new_pool (class_size 3))"
    by blast
  then have p3: "get_pool s 8288 = Some (new_pool 4096)"
    by (simp add: MULTIPOOL_ENTRY_COUNT_def class_size_eq)
  from c have e: "example_multipool = (4096, s)" by (simp add: example_multipool_def)
  show thesis by (rule that[OF c e g p3 r])
qed

text \<open>
  Claim C2, as the code has it. For every multipool and every requested size \<open>S\<close> greater
  than \<open>4194304\<close>, \<open>multipool_mem_acquire\<close> built with \<^verbatim>\<open>NDEBUG\<close> returns \<^verbatim>\<open>NULL\<close> and
  leaves the store as it was: no pool is asked, nothing is allocated. Built with
  assertions it does not return: it stops at a failed assertion, which for a non-null
  multipool is \<^verbatim>\<open>assert(index < MULTIPOOL_ENTRY_COUNT)\<close>.
\<close>

theorem multipool_mem_acquire_out_of_range:
  "4194304 < unat sz \<Longrightarrow>
     multipool_mem_acquire c multipool sz s =
       (if NDEBUG c then Inr (0, s) else Inl AssertionFailed)"
  by (intro multipool_mem_acquire_index_out_of_range index_out_of_range)

theorem multipool_mem_acquire_out_of_range_witness:
  "(4194304::nat) < unat (4194305::u32)
   \<and> multipool_mem_acquire \<lparr>NDEBUG = True, TRACK_POOL_USAGE = False\<rparr>
        (fst example_multipool) 4194305 (snd example_multipool)
       = Inr (0, snd example_multipool)"
  using multipool_mem_acquire_out_of_range
          [of 4194305 "\<lparr>NDEBUG = True, TRACK_POOL_USAGE = False\<rparr>"
              "fst example_multipool" "snd example_multipool"]
  by simp

text \<open>
  The claim as stated (the call returns \<^verbatim>\<open>NULL\<close> for every multipool made by
  \<open>multipool_create\<close>) fails in a build with assertions: on the multipool created from
  \<open>example_boot\<close>, a request of \<open>4194305\<close> bytes ends in the failed assertion.
\<close>

theorem multipool_mem_acquire_out_of_range_counterexample:
  "multipool_create example_boot = Inr example_multipool
   \<and> fst example_multipool \<noteq> 0
   \<and> (4194304::nat) < unat (4194305::u32)
   \<and> multipool_mem_acquire \<lparr>NDEBUG = False, TRACK_POOL_USAGE = False\<rparr>
        (fst example_multipool) 4194305 (snd example_multipool)
       = Inl AssertionFailed"
proof -
  obtain s where c: "multipool_create example_boot = Inr (4096, s)"
    and e: "example_multipool = (4096, s)"
    by (rule example_boot_create)
  have a: "multipool_create example_boot = Inr example_multipool"
    unfolding e by (rule c)
  have b: "fst example_multipool \<noteq> 0"
    unfolding e by simp
  have r: "(4194304::nat) < unat (4194305::u32)" by simp
  then have "multipool_mem_acquire \<lparr>NDEBUG = False, TRACK_POOL_USAGE = False\<rparr>
        (fst example_multipool) 4194305 (snd example_multipool) = Inl AssertionFailed"
    by (simp add: multipool_mem_acquire_index_out_of_range index_out_of_range)
  with a b r show ?thesis by blast
qed

subsection \<open>A request of size zero\<close>

text \<open>
  Claim C9. For size \<open>0\<close> the subtraction wraps to \<open>4294967295\<close> and the index is \<open>23\<close>,
  which is not below \<open>MULTIPOOL_ENTRY_COUNT\<close>; built with \<^verbatim>\<open>NDEBUG\<close>,
  \<open>multipool_mem_acquire\<close> then returns \<^verbatim>\<open>NULL\<close> and leaves the multipool and every pool
  as they were.
\<close>

theorem multipool_mem_acquire_size_zero:
  "(0 - 1 :: u32) = 4294967295
   \<and> find_multipool_index_for_size 0 = 23
   \<and> MULTIPOOL_ENTRY_COUNT \<le> unat (find_multipool_index_for_size 0)
   \<and> (NDEBUG c \<longrightarrow> multipool_mem_acquire c multipool 0 s = Inr (0, s))"
proof -
  have i: "find_multipool_index_for_size 0 = 23"
    by (simp add: index_eval Let_def bit_mask_iff)
  then have r: "MULTIPOOL_ENTRY_COUNT \<le> unat (find_multipool_index_for_size 0)"
    by (simp add: MULTIPOOL_ENTRY_COUNT_def)
  from i r show ?thesis
    by (simp add: multipool_mem_acquire_index_out_of_range)
qed

theorem multipool_mem_acquire_size_zero_witness:
  "NDEBUG \<lparr>NDEBUG = True, TRACK_POOL_USAGE = True\<rparr>
   \<and> multipool_mem_acquire \<lparr>NDEBUG = True, TRACK_POOL_USAGE = True\<rparr>
        (fst example_multipool) 0 (snd example_multipool)
       = Inr (0, snd example_multipool)"
  using multipool_mem_acquire_size_zero
          [of "\<lparr>NDEBUG = True, TRACK_POOL_USAGE = True\<rparr>"
              "fst example_multipool" "snd example_multipool"]
  by simp

subsection \<open>Acquire on an empty pool\<close>

text \<open>
  Claim C6. When \<open>pool_mem_acquire\<close> finds the free list empty and the allocator fails,
  for the node or for its data area, the call returns \<^verbatim>\<open>NULL\<close>; a node that was
  allocated is released again, no other node, no data area and no pool changes (so the head
  and \<open>mem_size\<close> of the pool are what they were), and a later acquire on the same pool
  succeeds once the allocator delivers.
\<close>

theorem pool_mem_acquire_allocation_failure:
  assumes "get_pool s pool = Some P" and "head P = 0" and "NDEBUG c \<or> mem_size P \<noteq> 0"
    and "fst (malloc s) = 0 \<or> fst (malloc (snd (malloc s))) = 0"
  shows "\<exists>s'. pool_mem_acquire c pool s = Inr (0, s')
     \<and> get_node s' (fst (malloc s)) = None
     \<and> (\<forall>a. a \<noteq> fst (malloc s) \<longrightarrow> get_node s' a = get_node s a)
     \<and> blocks s' = blocks s \<and> mempools s' = mempools s \<and> multipools s' = multipools s
     \<and> global_multipool s' = global_multipool s
     \<and> get_pool s' pool = Some P
     \<and> (\<forall>n b r. malloc_results s' = n # b # r \<and> n \<noteq> 0 \<and> b \<noteq> 0 \<longrightarrow>
           (\<exists>s''. pool_mem_acquire c pool s' = Inr (b + sizeof_ptrdiff_t, s'')))"
proof -
  have again: "\<forall>n b r. malloc_results t = n # b # r \<and> n \<noteq> 0 \<and> b \<noteq> 0 \<longrightarrow>
           (\<exists>s''. pool_mem_acquire c pool t = Inr (b + sizeof_ptrdiff_t, s''))"
    if "get_pool t pool = Some P" for t
    by (simp add: pool_mem_acquire_empty_eq[OF that assms(2,3)])
  have main: "\<exists>s'. pool_mem_acquire c pool s = Inr (0, s')
     \<and> get_node s' (fst (malloc s)) = None
     \<and> (\<forall>a. a \<noteq> fst (malloc s) \<longrightarrow> get_node s' a = get_node s a)
     \<and> blocks s' = blocks s \<and> mempools s' = mempools s \<and> multipools s' = multipools s
     \<and> global_multipool s' = global_multipool s
     \<and> get_pool s' pool = Some P"
  proof (cases "malloc_results s")
    case Nil
    then show ?thesis
      using assms(1)
      by (simp add: pool_mem_acquire_empty_eq[OF assms(1-3)] malloc_def)
  next
    case (Cons n r1)
    show ?thesis
    proof (cases "n = 0")
      case True
      then show ?thesis
        using Cons assms(1)
        by (simp add: pool_mem_acquire_empty_eq[OF assms(1-3)] malloc_def)
    next
      case False
      with Cons assms(4) have r1: "r1 = [] \<or> (\<exists>r2. r1 = 0 # r2)"
        by (auto simp: malloc_def split: list.splits)
      then show ?thesis
        using Cons False assms(1)
        by (auto simp: pool_mem_acquire_empty_eq[OF assms(1-3)] malloc_def)
    qed
  qed
  then obtain s' where s': "pool_mem_acquire c pool s = Inr (0, s')"
     "get_node s' (fst (malloc s)) = None"
     "\<forall>a. a \<noteq> fst (malloc s) \<longrightarrow> get_node s' a = get_node s a"
     "blocks s' = blocks s" "mempools s' = mempools s" "multipools s' = multipools s"
     "global_multipool s' = global_multipool s"
     "get_pool s' pool = Some P"
    by blast
  from again[OF s'(8)] s' show ?thesis
    by blast
qed

theorem pool_mem_acquire_allocation_failure_witness:
  "get_pool example_empty_pool 64 =
     Some \<lparr>head = 0, mem_size = 4096, num_allocs = 0, num_available = 0\<rparr>
   \<and> fst (malloc example_empty_pool) = 128
   \<and> fst (malloc (snd (malloc example_empty_pool))) = 0
   \<and> (\<exists>s'. pool_mem_acquire example_config 64 example_empty_pool = Inr (0, s')
          \<and> get_node s' 128 = None
          \<and> get_pool s' 64 =
               Some \<lparr>head = 0, mem_size = 4096, num_allocs = 0, num_available = 0\<rparr>
          \<and> malloc_results s' = [160, 256]
          \<and> (\<exists>s''. pool_mem_acquire example_config 64 s' = Inr (264, s'')))"
proof -
  let ?P = "\<lparr>head = 0, mem_size = 4096, num_allocs = 0, num_available = 0\<rparr> :: MemPool"
  have g: "get_pool example_empty_pool 64 = Some ?P"
    by (simp add: example_empty_pool_def get_pool_def)
  have h: "head ?P = 0" by simp
  have a: "NDEBUG example_config \<or> mem_size ?P \<noteq> 0" by simp
  have m1: "fst (malloc example_empty_pool) = 128"
    by (simp add: example_empty_pool_def malloc_def)
  have m2: "fst (malloc (snd (malloc example_empty_pool))) = 0"
    by (simp add: example_empty_pool_def malloc_def)
  then have f: "fst (malloc example_empty_pool) = 0
      \<or> fst (malloc (snd (malloc example_empty_pool))) = 0" ..
  from pool_mem_acquire_allocation_failure[OF g h a f] obtain s' where
    r: "pool_mem_acquire example_config 64 example_empty_pool = Inr (0, s')"
    and n: "get_node s' (fst (malloc example_empty_pool)) = None"
    and p: "get_pool s' 64 = Some ?P"
    and again: "\<forall>n b r. malloc_results s' = n # b # r \<and> n \<noteq> 0 \<and> b \<noteq> 0 \<longrightarrow>
           (\<exists>s''. pool_mem_acquire example_config 64 s' = Inr (b + sizeof_ptrdiff_t, s''))"
    by blast
  from r[unfolded pool_mem_acquire_empty_eq[OF g h a]]
  have mr: "malloc_results s' = [160, 256]"
    by (auto simp: example_empty_pool_def)
  from again mr have "\<exists>s''. pool_mem_acquire example_config 64 s' = Inr (264, s'')"
    by (simp add: sizeof_ptrdiff_t_def)
  with g m1 m2 r n p mr show ?thesis by auto
qed

text \<open>
  Claim C7. When \<open>pool_mem_acquire\<close> finds the head of the pool \<^verbatim>\<open>NULL\<close>, the call is not
  an error and leaves the head of every pool as it was, so the head of this pool is still
  \<^verbatim>\<open>NULL\<close>; when the allocator delivers the node and the data area, the result is the
  data pointer of the new block, whose node has a \<^verbatim>\<open>NULL\<close> \<^verbatim>\<open>next\<close> and is in no free
  list.
\<close>

theorem pool_mem_acquire_cache_miss:
  assumes "get_pool s pool = Some P" and "head P = 0" and "NDEBUG c \<or> mem_size P \<noteq> 0"
  shows "\<exists>p s'. pool_mem_acquire c pool s = Inr (p, s')
     \<and> map_option head (get_pool s' pool) = Some 0
     \<and> (\<forall>q. map_option head (get_pool s' q) = map_option head (get_pool s q))
     \<and> (\<forall>n b r. malloc_results s = n # b # r \<and> n \<noteq> 0 \<and> b \<noteq> 0 \<longrightarrow>
           p = b + sizeof_ptrdiff_t \<and>
           get_node s' n = Some \<lparr>node_next = 0, node_data = p, node_pool = pool\<rparr> \<and>
           get_block s' b =
             Some \<lparr>owner = n, alloc_size = unat (mem_size P) + sizeof_ptrdiff_t\<rparr> \<and>
           malloc_results s' = r)"
proof -
  from assms(1) have pz: "pool \<noteq> 0" by (rule get_pool_nonzero)
  have hc: "head (count_alloc c P) = 0" using assms(2) by (simp add: count_alloc_def)
  show ?thesis
    unfolding pool_mem_acquire_empty_eq[OF assms]
    using assms(1,2) pz hc
    by (auto split: list.splits)
qed

theorem pool_mem_acquire_cache_miss_witness:
  "get_pool (example_empty_pool\<lparr>malloc_results := [128, 256]\<rparr>) 64 =
     Some \<lparr>head = 0, mem_size = 4096, num_allocs = 0, num_available = 0\<rparr>
   \<and> (\<exists>s'. pool_mem_acquire example_config 64
              (example_empty_pool\<lparr>malloc_results := [128, 256]\<rparr>) = Inr (264, s')
          \<and> map_option head (get_pool s' 64) = Some 0
          \<and> get_node s' 128 = Some \<lparr>node_next = 0, node_data = 264, node_pool = 64\<rparr>
          \<and> get_block s' 256 = Some \<lparr>owner = 128, alloc_size = 4104\<rparr>
          \<and> malloc_results s' = [])"
proof -
  let ?s = "example_empty_pool\<lparr>malloc_results := [128, 256]\<rparr>"
  let ?P = "\<lparr>head = 0, mem_size = 4096, num_allocs = 0, num_available = 0\<rparr> :: MemPool"
  have g: "get_pool ?s 64 = Some ?P"
    by (simp add: example_empty_pool_def get_pool_def)
  have h: "head ?P = 0" by simp
  have a: "NDEBUG example_config \<or> mem_size ?P \<noteq> 0" by simp
  have m: "malloc_results ?s = 128 # 256 # []" by simp
  from pool_mem_acquire_cache_miss[OF g h a] obtain p s' where
    r: "pool_mem_acquire example_config 64 ?s = Inr (p, s')"
    and hd: "map_option head (get_pool s' 64) = Some 0"
    and new: "\<forall>n b r. malloc_results ?s = n # b # r \<and> n \<noteq> 0 \<and> b \<noteq> 0 \<longrightarrow>
           p = b + sizeof_ptrdiff_t \<and>
           get_node s' n = Some \<lparr>node_next = 0, node_data = p, node_pool = 64\<rparr> \<and>
           get_block s' b =
             Some \<lparr>owner = n, alloc_size = unat (mem_size ?P) + sizeof_ptrdiff_t\<rparr> \<and>
           malloc_results s' = r"
    by blast
  from new[rule_format, of 128 256 "[]"] m have "p = 256 + sizeof_ptrdiff_t \<and>
           get_node s' 128 = Some \<lparr>node_next = 0, node_data = p, node_pool = 64\<rparr> \<and>
           get_block s' 256 =
             Some \<lparr>owner = 128, alloc_size = unat (mem_size ?P) + sizeof_ptrdiff_t\<rparr> \<and>
           malloc_results s' = []"
    by simp
  with g r hd show ?thesis
    by (auto simp: sizeof_ptrdiff_t_def)
qed

subsection \<open>Return followed by acquire\<close>

text \<open>
  Claim C3. Let \<open>p\<close> be a non-null pointer that \<open>pool_mem_acquire\<close> returned for a pool,
  in a store of the shape \<open>store_inv\<close>, and let any sequence of calls that leave the pools
  in place (\<open>run_calls\<close>: further acquires and returns, on this pool or others, and
  constructions) have run since. Then \<open>pool_mem_return p\<close> followed at once by
  \<open>pool_mem_acquire\<close> on the same pool returns \<open>p\<close> again, the very block whose hidden
  prefix names the same node, and neither call takes anything from the allocator.
\<close>

theorem pool_mem_return_acquire_roundtrip:
  assumes "store_inv s0" and "pool_mem_acquire c pool s0 = Inr (p, s1)" and "p \<noteq> 0"
    and "run_calls c calls s1 = Some s"
  shows "\<exists>s2 s3. pool_mem_return c p s = Inr s2 \<and> pool_mem_acquire c pool s2 = Inr (p, s3)
     \<and> malloc_results s2 = malloc_results s \<and> malloc_results s3 = malloc_results s
     \<and> get_memnode_in_data c p s3 = get_memnode_in_data c p s
     \<and> blocks s3 = blocks s \<and> mempools s3 = mempools s"
proof -
  from assms(1-3) have "block_of s1 pool p" by (rule pool_mem_acquire_block_of)
  then have "block_of s pool p" using assms(4) by (rule block_of_run_calls)
  then show ?thesis by (rule block_of_roundtrip)
qed

lemma example_pool_inv: "store_inv example_pool"
  by (auto simp: store_inv_def node_wf_def pool_wf_def example_pool_def get_node_def
      get_pool_def get_block_def sizeof_ptrdiff_t_def split: if_splits)

lemma example_pool_fresh: "malloc_fresh example_pool"
  by (simp add: malloc_fresh_def example_pool_def get_node_def get_block_def)

theorem pool_mem_return_acquire_roundtrip_witness:
  "store_inv example_pool
   \<and> (\<exists>s1 s. pool_mem_acquire example_config 64 example_pool = Inr (264, s1)
        \<and> run_calls example_config [Acquire 64, Return 1032] s1 = Some s
        \<and> (\<exists>s2 s3. pool_mem_return example_config 264 s = Inr s2
              \<and> pool_mem_acquire example_config 64 s2 = Inr (264, s3)
              \<and> malloc_results s2 = malloc_results s
              \<and> malloc_results s3 = malloc_results s))"
proof -
  let ?c = example_config
  let ?P = "\<lparr>head = 128, mem_size = 4096, num_allocs = 1, num_available = 1\<rparr> :: MemPool"
  let ?nd = "\<lparr>node_next = 0, node_data = 264, node_pool = 64\<rparr> :: MemNode"
  let ?Q = "count_unavailable ?c (?P\<lparr>head := node_next ?nd\<rparr>)"
  have g: "get_pool example_pool 64 = Some ?P"
    by (simp add: example_pool_def get_pool_def)
  have h: "head ?P \<noteq> 0" by simp
  have n: "get_node example_pool (head ?P) = Some ?nd"
    by (simp add: example_pool_def get_node_def)
  let ?s1 = "example_pool\<lparr>mempools := fmupd 64 ?Q (mempools example_pool),
                cas_spurious := after_exchange (cas_spurious example_pool)\<rparr>"
  have a1: "pool_mem_acquire ?c 64 example_pool = Inr (264, ?s1)"
    using pool_mem_acquire_loop_hit[OF g h n, of ?c]
    by (simp add: pool_mem_acquire_def)
  have inv1: "store_inv ?s1"
    using example_pool_inv example_pool_fresh a1 by (rule store_inv_pool_mem_acquire)
  have f1: "malloc_fresh ?s1"
    by (simp add: malloc_fresh_def example_pool_def get_node_def get_block_def)
  have g1: "get_pool ?s1 64 = Some ?Q" by simp
  have h1: "head ?Q = 0" by (simp add: count_unavailable_def)
  have k1: "NDEBUG ?c \<or> mem_size ?Q \<noteq> 0" by (simp add: count_unavailable_def)
  have m1: "malloc_results ?s1 = [512, 1024]" by (simp add: example_pool_def)
  have "\<exists>t. pool_mem_acquire ?c 64 ?s1 = Inr (1032, t)"
    unfolding pool_mem_acquire_empty_eq[OF g1 h1 k1] m1
    by (simp add: sizeof_ptrdiff_t_def)
  then obtain t where a2: "pool_mem_acquire ?c 64 ?s1 = Inr (1032, t)" ..
  have "block_of t 64 1032"
    using inv1 a2 by (rule pool_mem_acquire_block_of) simp
  from block_of_roundtrip[OF this, of ?c]
  obtain s where r: "pool_mem_return ?c 1032 t = Inr s" by blast
  have run: "run_calls ?c [Acquire 64, Return 1032] ?s1 = Some s"
    using f1 a2 r by simp
  have nz: "(264::addr) \<noteq> 0" by simp
  from pool_mem_return_acquire_roundtrip[OF example_pool_inv a1 nz run] a1 run example_pool_inv
  show ?thesis by blast
qed

subsection \<open>The size classes of a multipool\<close>

lemma find_multipool_index_4096: "find_multipool_index_for_size 4096 = 3"
  by (simp add: index_eval)

lemma example_multipool_acquire:
  assumes "get_multipool s 4096 =
      Some \<lparr>pools = [8192, 8224, 8256, 8288, 8320, 8352, 8384, 8416, 8448, 8480,
                        8512, 8544, 8576, 8608]\<rparr>"
    and "get_pool s 8288 = Some (new_pool 4096)"
    and "malloc_results s = [12288, 16384]"
  shows "\<exists>t. multipool_mem_acquire example_config 4096 4096 s = Inr (16392, t)"
proof -
  have e: "get_pools_entry s 4096 3 = Inr 8288"
    using assms(1) by (simp add: get_pools_entry_def)
  have h: "head (new_pool 4096) = 0" by (simp add: new_pool_def)
  have a: "NDEBUG example_config \<or> mem_size (new_pool 4096) \<noteq> 0"
    by (simp add: new_pool_def)
  have "\<exists>t. pool_mem_acquire example_config 8288 s = Inr (16392, t)"
    using assms(3)
    by (simp add: pool_mem_acquire_empty_eq[OF assms(2) h a] sizeof_ptrdiff_t_def)
  then show ?thesis
    using e
    by (simp add: multipool_mem_acquire_def find_multipool_index_4096 Let_def
        MULTIPOOL_ENTRY_COUNT_def example_config_def)
qed

text \<open>
  Claim C5. When every allocation succeeds (the allocator returns non-null, pairwise
  different addresses for the pools), \<open>multipool_create\<close> builds exactly
  \<open>MULTIPOOL_ENTRY_COUNT = 14\<close> pools, the pool at index \<open>i\<close> being empty with block size
  \<open>512 << i\<close>; these sizes increase strictly from \<open>512\<close> to \<open>4194304\<close>; and no acquire
  (on a pool, a multipool or the global multipool) and no return changes the \<open>mem_size\<close> of
  any pool.
\<close>

theorem multipool_create_size_classes:
  "(malloc_results s = mp # ps @ rest \<and> mp \<noteq> 0 \<and> length ps = MULTIPOOL_ENTRY_COUNT
      \<and> 0 \<notin> set ps \<and> distinct ps \<longrightarrow>
      (\<exists>s'. multipool_create s = Inr (mp, s')
         \<and> get_multipool s' mp = Some \<lparr>pools = ps\<rparr>
         \<and> (\<forall>i<MULTIPOOL_ENTRY_COUNT.
               get_pool s' (ps ! i) = Some (new_pool (push_bit i 512)))))
   \<and> MULTIPOOL_ENTRY_COUNT = 14
   \<and> (\<forall>i j. i < j \<and> j < MULTIPOOL_ENTRY_COUNT \<longrightarrow>
         (push_bit i 512 :: u32) < push_bit j 512)
   \<and> (push_bit 0 512 :: u32) = 512
   \<and> (push_bit (MULTIPOOL_ENTRY_COUNT - 1) 512 :: u32) = 4194304
   \<and> (pool_mem_acquire c pool t = Inr (p, t') \<longrightarrow>
        (\<forall>q. map_option mem_size (get_pool t' q) = map_option mem_size (get_pool t q)))
   \<and> (multipool_mem_acquire c multipool sz t = Inr (p, t') \<longrightarrow>
        (\<forall>q. map_option mem_size (get_pool t' q) = map_option mem_size (get_pool t q)))
   \<and> (global_multipool_mem_acquire c sz t = Inr (p, t') \<longrightarrow>
        (\<forall>q. map_option mem_size (get_pool t' q) = map_option mem_size (get_pool t q)))
   \<and> (pool_mem_return c p t = Inr t' \<longrightarrow>
        (\<forall>q. map_option mem_size (get_pool t' q) = map_option mem_size (get_pool t q)))"
proof -
  have create: "\<exists>s'. multipool_create s = Inr (mp, s')
         \<and> get_multipool s' mp = Some \<lparr>pools = ps\<rparr>
         \<and> (\<forall>i<MULTIPOOL_ENTRY_COUNT.
               get_pool s' (ps ! i) = Some (new_pool (push_bit i 512)))"
    if m: "malloc_results s = mp # ps @ rest" and z: "mp \<noteq> 0"
      and l: "length ps = MULTIPOOL_ENTRY_COUNT" and nz: "0 \<notin> set ps" and d: "distinct ps"
  proof -
    from d have d': "distinct (filter (\<lambda>a. a \<noteq> 0) ps)" by simp
    from multipool_create_result[OF m z l d'] obtain s' where
      c: "multipool_create s = Inr (mp, s')"
      and g: "get_multipool s' mp = Some \<lparr>pools = ps\<rparr>"
      and p: "\<forall>j<MULTIPOOL_ENTRY_COUNT. ps ! j \<noteq> 0 \<longrightarrow>
           get_pool s' (ps ! j) = Some (new_pool (class_size j))"
      by blast
    have "get_pool s' (ps ! i) = Some (new_pool (push_bit i 512))"
      if "i < MULTIPOOL_ENTRY_COUNT" for i
    proof -
      from that l nz have "ps ! i \<noteq> 0" by (metis nth_mem)
      with p that show ?thesis by (simp add: class_size_eq)
    qed
    with c g show ?thesis by blast
  qed
  have mono: "(push_bit i 512 :: u32) < push_bit j 512"
    if "i < j \<and> j < MULTIPOOL_ENTRY_COUNT" for i j
    using class_size_strict_mono[of i j] that by (simp add: class_size_eq)
  have last: "(push_bit (MULTIPOOL_ENTRY_COUNT - 1) 512 :: u32) = 4194304"
    by (simp add: MULTIPOOL_ENTRY_COUNT_def)
  show ?thesis
    using create mono last pool_mem_acquire_frame[of c pool t p t']
      multipool_mem_acquire_frame[of c multipool sz t p t']
      global_multipool_mem_acquire_frame[of c sz t p t']
      pool_mem_return_frame[of c p t t']
    by (simp add: MULTIPOOL_ENTRY_COUNT_def)
qed

theorem multipool_create_size_classes_witness:
  "(\<exists>s'. multipool_create example_boot = Inr (4096, s')
       \<and> get_multipool s' 4096 =
            Some \<lparr>pools = [8192, 8224, 8256, 8288, 8320, 8352, 8384, 8416, 8448, 8480,
                              8512, 8544, 8576, 8608]\<rparr>
       \<and> get_pool s' 8288 = Some (new_pool 4096))
   \<and> (\<exists>t'. pool_mem_acquire example_config 64 example_pool = Inr (264, t')
         \<and> map_option mem_size (get_pool t' 64) = Some 4096
         \<and> (\<exists>t''. pool_mem_return example_config 264 t' = Inr t''
               \<and> map_option mem_size (get_pool t'' 64) = Some 4096))
   \<and> (\<exists>t'. multipool_mem_acquire example_config (fst example_multipool) 4096
                (snd example_multipool) = Inr (16392, t')
         \<and> map_option mem_size (get_pool t' 8288) = Some 4096)
   \<and> (\<exists>t'. global_multipool_mem_acquire example_config 4096 example_global
                = Inr (16392, t')
         \<and> map_option mem_size (get_pool t' 8288) = Some 4096)"
proof -
  let ?ps = "[8192, 8224, 8256, 8288, 8320, 8352, 8384, 8416, 8448, 8480,
              8512, 8544, 8576, 8608] :: addr list"
  note T = multipool_create_size_classes
  \<comment> \<open>construction\<close>
  have m: "malloc_results example_boot = 4096 # ?ps @ [12288, 16384]"
    by (simp add: example_boot_def)
  have hyp: "malloc_results example_boot = 4096 # ?ps @ [12288, 16384] \<and> (4096::addr) \<noteq> 0
      \<and> length ?ps = MULTIPOOL_ENTRY_COUNT \<and> 0 \<notin> set ?ps \<and> distinct ?ps"
    using m by (simp add: MULTIPOOL_ENTRY_COUNT_def)
  from T[where s = example_boot and mp = 4096 and ps = ?ps and rest = "[12288, 16384]"] hyp
  obtain s' where c: "multipool_create example_boot = Inr (4096, s')"
    and g: "get_multipool s' 4096 = Some \<lparr>pools = ?ps\<rparr>"
    and p: "\<forall>i<MULTIPOOL_ENTRY_COUNT. get_pool s' (?ps ! i) = Some (new_pool (push_bit i 512))"
    by blast
  from p have "(3::nat) < MULTIPOOL_ENTRY_COUNT \<longrightarrow>
      get_pool s' (?ps ! 3) = Some (new_pool (push_bit 3 512))" by blast
  then have p3: "get_pool s' 8288 = Some (new_pool 4096)"
    by (simp add: MULTIPOOL_ENTRY_COUNT_def)
  have A: "\<exists>s'. multipool_create example_boot = Inr (4096, s')
       \<and> get_multipool s' 4096 = Some \<lparr>pools = ?ps\<rparr>
       \<and> get_pool s' 8288 = Some (new_pool 4096)"
    using c g p3 by blast
  \<comment> \<open>acquire and return on a pool\<close>
  let ?P = "\<lparr>head = 128, mem_size = 4096, num_allocs = 1, num_available = 1\<rparr> :: MemPool"
  let ?nd = "\<lparr>node_next = 0, node_data = 264, node_pool = 64\<rparr> :: MemNode"
  have gp: "get_pool example_pool 64 = Some ?P"
    by (simp add: example_pool_def get_pool_def)
  have gn: "get_node example_pool (head ?P) = Some ?nd"
    by (simp add: example_pool_def get_node_def)
  obtain t' where a: "pool_mem_acquire example_config 64 example_pool = Inr (264, t')"
    using pool_mem_acquire_loop_hit[OF gp _ gn, of example_config]
    by (simp add: pool_mem_acquire_def)
  from T[where c = example_config and pool = 64 and t = example_pool and p = 264
        and t' = t'] a gp
  have a1: "map_option mem_size (get_pool t' 64) = Some 4096" by simp
  have "block_of t' 64 264"
    using example_pool_inv a by (rule pool_mem_acquire_block_of) simp
  from block_of_roundtrip[OF this, of example_config]
  obtain t'' where r: "pool_mem_return example_config 264 t' = Inr t''" by blast
  from T[where c = example_config and p = 264 and t = t' and t' = t''] r a1
  have r1: "map_option mem_size (get_pool t'' 64) = Some 4096" by simp
  have B: "\<exists>t'. pool_mem_acquire example_config 64 example_pool = Inr (264, t')
         \<and> map_option mem_size (get_pool t' 64) = Some 4096
         \<and> (\<exists>t''. pool_mem_return example_config 264 t' = Inr t''
               \<and> map_option mem_size (get_pool t'' 64) = Some 4096)"
    using a a1 r r1 by blast
  \<comment> \<open>acquire on the multipool and on the global multipool\<close>
  obtain s where e: "example_multipool = (4096, s)"
    and cs: "multipool_create example_boot = Inr (4096, s)"
    and gs: "get_multipool s 4096 = Some \<lparr>pools = ?ps\<rparr>"
    and ps: "get_pool s 8288 = Some (new_pool 4096)"
    and ms: "malloc_results s = [12288, 16384]"
    using example_boot_create by metis
  from example_multipool_acquire[OF gs ps ms]
  obtain u where u: "multipool_mem_acquire example_config 4096 4096 s = Inr (16392, u)"
    by blast
  from T[where c = example_config and multipool = 4096 and sz = 4096 and t = s
        and p = 16392 and t' = u] u ps
  have u1: "map_option mem_size (get_pool u 8288) = Some 4096"
    by (simp add: new_pool_def)
  have C: "\<exists>t'. multipool_mem_acquire example_config (fst example_multipool) 4096
                (snd example_multipool) = Inr (16392, t')
         \<and> map_option mem_size (get_pool t' 8288) = Some 4096"
    unfolding e using u u1 by auto
  let ?g = "s\<lparr>global_multipool := 4096\<rparr>"
  have eg: "example_global = ?g"
    using cs by (simp add: example_global_def global_multipool_create_def)
  have gg: "get_multipool ?g 4096 = Some \<lparr>pools = ?ps\<rparr>" using gs by simp
  have pg: "get_pool ?g 8288 = Some (new_pool 4096)" using ps by simp
  have mg: "malloc_results ?g = [12288, 16384]" using ms by simp
  from example_multipool_acquire[OF gg pg mg]
  obtain v where "multipool_mem_acquire example_config 4096 4096 ?g = Inr (16392, v)"
    by blast
  then have v: "global_multipool_mem_acquire example_config 4096 ?g = Inr (16392, v)"
    by (simp add: global_multipool_mem_acquire_def)
  from T[where c = example_config and sz = 4096 and t = ?g and p = 16392 and t' = v] v pg
  have v1: "map_option mem_size (get_pool v 8288) = Some 4096"
    by (simp add: new_pool_def)
  have D: "\<exists>t'. global_multipool_mem_acquire example_config 4096 example_global
                = Inr (16392, t')
         \<and> map_option mem_size (get_pool t' 8288) = Some 4096"
    unfolding eg using v v1 by auto
  from A B C D show ?thesis by blast
qed

subsection \<open>A pool that cannot be allocated during construction\<close>

text \<open>
  Claim C8. If the allocation of the pool for some class \<open>k\<close> fails during
  \<open>multipool_create\<close>, the multipool is returned all the same and is not \<^verbatim>\<open>NULL\<close>; entry
  \<open>k\<close> of its table is \<^verbatim>\<open>NULL\<close>, and every class whose allocation succeeded, before or
  after \<open>k\<close>, has its empty pool of block size \<open>512 << i\<close>.
\<close>

theorem multipool_create_partial:
  assumes "malloc_results s = mp # rs @ rest" and "mp \<noteq> 0"
    and "length rs = MULTIPOOL_ENTRY_COUNT"
    and "distinct (filter (\<lambda>a. a \<noteq> 0) rs)"
    and "k < MULTIPOOL_ENTRY_COUNT" and "rs ! k = 0"
  shows "\<exists>s'. multipool_create s = Inr (mp, s') \<and> mp \<noteq> 0
     \<and> get_multipool s' mp = Some \<lparr>pools = rs\<rparr>
     \<and> get_pools_entry s' mp k = Inr 0
     \<and> (\<forall>i<MULTIPOOL_ENTRY_COUNT. rs ! i \<noteq> 0 \<longrightarrow>
           get_pools_entry s' mp i = Inr (rs ! i) \<and>
           get_pool s' (rs ! i) = Some (new_pool (push_bit i 512)))"
proof -
  from multipool_create_result[OF assms(1-4)] obtain s' where
    c: "multipool_create s = Inr (mp, s')"
    and g: "get_multipool s' mp = Some \<lparr>pools = rs\<rparr>"
    and p: "\<forall>j<MULTIPOOL_ENTRY_COUNT. rs ! j \<noteq> 0 \<longrightarrow>
           get_pool s' (rs ! j) = Some (new_pool (class_size j))"
    by blast
  have e: "get_pools_entry s' mp i = Inr (rs ! i)" if "i < MULTIPOOL_ENTRY_COUNT" for i
    using g that assms(3) by (simp add: get_pools_entry_def)
  from e[OF assms(5)] assms(6) have "get_pools_entry s' mp k = Inr 0" by simp
  with c g p e assms(2) show ?thesis
    by (intro exI[of _ s']) (simp add: class_size_eq)
qed

theorem multipool_create_partial_witness:
  "(\<exists>s'. multipool_create
            (example_boot\<lparr>malloc_results :=
               [4096, 8192, 8224, 8256, 8288, 8320, 0, 8384, 8416, 8448, 8480,
                8512, 8544, 8576, 8608]\<rparr>) = Inr (4096, s')
       \<and> get_pools_entry s' 4096 5 = Inr 0
       \<and> get_pools_entry s' 4096 4 = Inr 8320
       \<and> get_pool s' 8320 = Some (new_pool 8192)
       \<and> get_pools_entry s' 4096 6 = Inr 8384
       \<and> get_pool s' 8384 = Some (new_pool 32768))"
proof -
  let ?rs = "[8192, 8224, 8256, 8288, 8320, 0, 8384, 8416, 8448, 8480,
              8512, 8544, 8576, 8608] :: addr list"
  let ?s = "example_boot\<lparr>malloc_results := 4096 # ?rs\<rparr>"
  have m: "malloc_results ?s = 4096 # ?rs @ []" by simp
  have z: "(4096::addr) \<noteq> 0" by simp
  have l: "length ?rs = MULTIPOOL_ENTRY_COUNT" by (simp add: MULTIPOOL_ENTRY_COUNT_def)
  have d: "distinct (filter (\<lambda>a. a \<noteq> 0) ?rs)" by simp
  have k: "(5::nat) < MULTIPOOL_ENTRY_COUNT" by (simp add: MULTIPOOL_ENTRY_COUNT_def)
  have f: "?rs ! 5 = 0" by simp
  from multipool_create_partial[OF m z l d k f] obtain s' where
    c: "multipool_create ?s = Inr (4096, s')"
    and e: "get_pools_entry s' 4096 5 = Inr 0"
    and p: "\<forall>i<MULTIPOOL_ENTRY_COUNT. ?rs ! i \<noteq> 0 \<longrightarrow>
           get_pools_entry s' 4096 i = Inr (?rs ! i) \<and>
           get_pool s' (?rs ! i) = Some (new_pool (push_bit i 512))"
    by blast
  from p[rule_format, of 4] have p4: "get_pools_entry s' 4096 4 = Inr 8320
       \<and> get_pool s' 8320 = Some (new_pool 8192)"
    by (simp add: MULTIPOOL_ENTRY_COUNT_def)
  from p[rule_format, of 6] have p6: "get_pools_entry s' 4096 6 = Inr 8384
       \<and> get_pool s' 8384 = Some (new_pool 32768)"
    by (simp add: MULTIPOOL_ENTRY_COUNT_def)
  from c e p4 p6 show ?thesis by auto
qed

subsection \<open>The global pointer after teardown\<close>

text \<open>
  Claim C10. \<open>global_multipool_free\<close> releases the multipool that the global pointer
  names and leaves the pointer as it was: after a teardown that returns, the pointer is
  still the old non-null address, no multipool lives there any more, and
  \<open>global_multipool_mem_acquire\<close>, whose assertion only compares the pointer with
  \<^verbatim>\<open>NULL\<close>, goes on to read the released multipool (undefined behaviour) for every size
  with a class.
\<close>

theorem global_multipool_free_keeps_pointer:
  assumes "global_multipool_free c s = Inr s'"
  shows "global_multipool s' = global_multipool s \<and> global_multipool s' \<noteq> 0
     \<and> get_multipool s (global_multipool s) \<noteq> None
     \<and> get_multipool s' (global_multipool s') = None
     \<and> (unat (find_multipool_index_for_size sz) < MULTIPOOL_ENTRY_COUNT \<longrightarrow>
          global_multipool_mem_acquire c sz s' = Inl UndefinedBehaviour)"
proof -
  from assms have "multipool_free c (global_multipool s) s = Inr s'"
    by (simp add: global_multipool_free_def)
  from multipool_free_result[OF this]
  have a: "global_multipool s' = global_multipool s" and b: "global_multipool s \<noteq> 0"
    and c: "get_multipool s (global_multipool s) \<noteq> None"
    and d: "get_multipool s' (global_multipool s) = None"
    by simp_all
  from a b d have "global_multipool_mem_acquire c sz s' = Inl UndefinedBehaviour"
    if "unat (find_multipool_index_for_size sz) < MULTIPOOL_ENTRY_COUNT"
    using that
    by (simp add: global_multipool_mem_acquire_def multipool_mem_acquire_def Let_def
        get_pools_entry_def)
  with a b c d show ?thesis by simp
qed

theorem global_multipool_free_keeps_pointer_witness:
  "\<exists>s'. global_multipool_free example_config example_global = Inr s'
      \<and> global_multipool example_global = 4096
      \<and> global_multipool s' = 4096
      \<and> get_multipool example_global 4096 \<noteq> None
      \<and> get_multipool s' 4096 = None
      \<and> unat (find_multipool_index_for_size 4096) < MULTIPOOL_ENTRY_COUNT
      \<and> global_multipool_mem_acquire example_config 4096 s' = Inl UndefinedBehaviour"
proof -
  let ?ps = "[8192, 8224, 8256, 8288, 8320, 8352, 8384, 8416, 8448, 8480,
              8512, 8544, 8576, 8608] :: addr list"
  have m: "malloc_results example_boot = 4096 # ?ps @ [12288, 16384]"
    by (simp add: example_boot_def)
  have z: "(4096::addr) \<noteq> 0" by simp
  have l: "length ?ps = MULTIPOOL_ENTRY_COUNT" by (simp add: MULTIPOOL_ENTRY_COUNT_def)
  have nz: "0 \<notin> set ?ps" by simp
  have d: "distinct ?ps" by simp
  from global_multipool_free_after_create[OF m z l nz d, of example_config]
  obtain s s' where c: "global_multipool_create example_boot = Inr s"
    and g: "global_multipool s = 4096"
    and f: "global_multipool_free example_config s = Inr s'"
    by blast
  from c have e: "example_global = s" by (simp add: example_global_def)
  have i: "unat (find_multipool_index_for_size 4096) < MULTIPOOL_ENTRY_COUNT"
    by (simp add: find_multipool_index_4096 MULTIPOOL_ENTRY_COUNT_def)
  from global_multipool_free_keeps_pointer[OF f, of 4096] g i
  have "global_multipool s' = 4096 \<and> get_multipool s 4096 \<noteq> None
      \<and> get_multipool s' 4096 = None
      \<and> global_multipool_mem_acquire example_config 4096 s' = Inl UndefinedBehaviour"
    by auto
  with f g i show ?thesis
    unfolding e by blast
qed

end
